theory Spec2Isabelle
  imports Main "HOL-Library.Word"
begin

unbundle bit_operations_syntax

section \<open>Boomerang tables of a small S-box (bdt.c, bct\_present.c)\<close>

subsection \<open>Data\<close>

text \<open>
  The S-box arrays are C arrays of \<open>int\<close>, passed as \<open>int sbox[]\<close>: a list of
  integers. No operation of the table code can overflow (XOR of array entries, a count
  of at most 16), so \<open>int\<close> stands for the machine type. A read outside the array is
  undefined behaviour of the C program; the model returns \<open>None\<close> there.
\<close>

definition rd :: "int list \<Rightarrow> int \<Rightarrow> int option" where
  "rd arr i = (if 0 \<le> i \<and> i < int (length arr) then Some (arr ! nat i) else None)"

text \<open>
  The output tables \<open>int bct[n][n]\<close> and \<open>int bdt[8][8][8]\<close> are stores from
  indices to cells. The loops below only write at indices bounded by their own guards;
  cells at other indices stand for the memory around the table.
\<close>

type_synonym table2 = "int \<Rightarrow> int \<Rightarrow> int"
type_synonym table3 = "int \<Rightarrow> int \<Rightarrow> int \<Rightarrow> int"

text \<open>The constants of bdt.c (lines 7 and 9).\<close>

definition SBOX :: "int list" where
  "SBOX = [7, 4, 6, 1, 0, 5, 2, 3]"

definition INV_SBOX :: "int list" where
  "INV_SBOX = [4, 3, 6, 7, 1, 5, 2, 0]"

text \<open>The constants of bct\_present.c (lines 6 and 8).\<close>

definition SBOX_present :: "int list" where
  "SBOX_present = [12, 5, 6, 11, 9, 0, 10, 13, 3, 14, 15, 8, 4, 7, 1, 2]"

definition INV_SBOX_present :: "int list" where
  "INV_SBOX_present = [5, 14, 15, 8, 12, 1, 2, 13, 11, 4, 6, 3, 0, 7, 9, 10]"

subsection \<open>The counting loop\<close>

text \<open>
  The innermost loop \<open>for (x = 0; x < n; x++)\<close> is the same text in the three table
  functions: it reads \<open>y1 = inv_sbox[sbox[x] ^ b]\<close> and
  \<open>y2 = inv_sbox[sbox[x ^ a] ^ b]\<close> and increments \<open>count\<close> when \<open>y1 ^ y2\<close> equals
  a target \<open>t\<close>. In both \<open>compute_bct\<close> the target is \<open>a\<close> itself and \<open>n\<close> is 8
  (bdt.c) or 16 (bct\_present.c); in \<open>compute_bdt\<close> the roles of \<open>a\<close>, \<open>b\<close>, \<open>t\<close>
  are played by \<open>d0\<close>, \<open>nabla0\<close>, \<open>d1\<close>.
\<close>

function count_loop ::
  "int \<Rightarrow> int list \<Rightarrow> int list \<Rightarrow> int \<Rightarrow> int \<Rightarrow> int \<Rightarrow> int \<Rightarrow> int \<Rightarrow> int option" where
  "count_loop n sbox inv_sbox a b t x count =
     (if x < n then
        (case rd sbox x of None \<Rightarrow> None | Some s1 \<Rightarrow>
        (case rd inv_sbox (s1 XOR b) of None \<Rightarrow> None | Some y1 \<Rightarrow>
        (case rd sbox (x XOR a) of None \<Rightarrow> None | Some s2 \<Rightarrow>
        (case rd inv_sbox (s2 XOR b) of None \<Rightarrow> None | Some y2 \<Rightarrow>
           count_loop n sbox inv_sbox a b t (x + 1)
             (if y1 XOR y2 = t then count + 1 else count)))))
      else Some count)"
  by pat_completeness auto
termination
  by (relation "measure (\<lambda>(n, sbox, inv_sbox, a, b, t, x, count). nat (n - x))") auto

declare count_loop.simps [simp del]

subsection \<open>compute\_bct\<close>

text \<open>
  The loops over \<open>b\<close> and over \<open>a\<close>, with the bound \<open>n\<close> of the source: 8 in bdt.c,
  16 in bct\_present.c. The statement \<open>bct[a][b] = count\<close> updates one cell of the store.
\<close>

function bct_b_loop ::
  "int \<Rightarrow> int list \<Rightarrow> int list \<Rightarrow> int \<Rightarrow> int \<Rightarrow> table2 \<Rightarrow> table2 option" where
  "bct_b_loop n sbox inv_sbox a b bct =
     (if b < n then
        (case count_loop n sbox inv_sbox a b a 0 0 of None \<Rightarrow> None | Some count \<Rightarrow>
           bct_b_loop n sbox inv_sbox a (b + 1) (bct(a := (bct a)(b := count))))
      else Some bct)"
  by pat_completeness auto
termination
  by (relation "measure (\<lambda>(n, sbox, inv_sbox, a, b, bct). nat (n - b))") auto

declare bct_b_loop.simps [simp del]

function bct_a_loop ::
  "int \<Rightarrow> int list \<Rightarrow> int list \<Rightarrow> int \<Rightarrow> table2 \<Rightarrow> table2 option" where
  "bct_a_loop n sbox inv_sbox a bct =
     (if a < n then
        (case bct_b_loop n sbox inv_sbox a 0 bct of None \<Rightarrow> None | Some bct' \<Rightarrow>
           bct_a_loop n sbox inv_sbox (a + 1) bct')
      else Some bct)"
  by pat_completeness auto
termination
  by (relation "measure (\<lambda>(n, sbox, inv_sbox, a, bct). nat (n - a))") auto

declare bct_a_loop.simps [simp del]

text \<open>bdt.c, lines 12 to 25.\<close>

definition compute_bct :: "int list \<Rightarrow> int list \<Rightarrow> table2 \<Rightarrow> table2 option" where
  "compute_bct sbox inv_sbox bct = bct_a_loop 8 sbox inv_sbox 0 bct"

subsection \<open>compute\_bdt\<close>

function bdt_nabla0_loop ::
  "int list \<Rightarrow> int list \<Rightarrow> int \<Rightarrow> int \<Rightarrow> int \<Rightarrow> table3 \<Rightarrow> table3 option" where
  "bdt_nabla0_loop sbox inv_sbox d0 d1 nabla0 bdt =
     (if nabla0 < 8 then
        (case count_loop 8 sbox inv_sbox d0 nabla0 d1 0 0 of None \<Rightarrow> None | Some count \<Rightarrow>
           bdt_nabla0_loop sbox inv_sbox d0 d1 (nabla0 + 1)
             (bdt(d0 := (bdt d0)(d1 := (bdt d0 d1)(nabla0 := count)))))
      else Some bdt)"
  by pat_completeness auto
termination
  by (relation "measure (\<lambda>(sbox, inv_sbox, d0, d1, nabla0, bdt). nat (8 - nabla0))") auto

declare bdt_nabla0_loop.simps [simp del]

function bdt_d1_loop ::
  "int list \<Rightarrow> int list \<Rightarrow> int \<Rightarrow> int \<Rightarrow> table3 \<Rightarrow> table3 option" where
  "bdt_d1_loop sbox inv_sbox d0 d1 bdt =
     (if d1 < 8 then
        (case bdt_nabla0_loop sbox inv_sbox d0 d1 0 bdt of None \<Rightarrow> None | Some bdt' \<Rightarrow>
           bdt_d1_loop sbox inv_sbox d0 (d1 + 1) bdt')
      else Some bdt)"
  by pat_completeness auto
termination
  by (relation "measure (\<lambda>(sbox, inv_sbox, d0, d1, bdt). nat (8 - d1))") auto

declare bdt_d1_loop.simps [simp del]

function bdt_d0_loop ::
  "int list \<Rightarrow> int list \<Rightarrow> int \<Rightarrow> table3 \<Rightarrow> table3 option" where
  "bdt_d0_loop sbox inv_sbox d0 bdt =
     (if d0 < 8 then
        (case bdt_d1_loop sbox inv_sbox d0 0 bdt of None \<Rightarrow> None | Some bdt' \<Rightarrow>
           bdt_d0_loop sbox inv_sbox (d0 + 1) bdt')
      else Some bdt)"
  by pat_completeness auto
termination
  by (relation "measure (\<lambda>(sbox, inv_sbox, d0, bdt). nat (8 - d0))") auto

declare bdt_d0_loop.simps [simp del]

text \<open>bdt.c, lines 28 to 43.\<close>

definition compute_bdt :: "int list \<Rightarrow> int list \<Rightarrow> table3 \<Rightarrow> table3 option" where
  "compute_bdt sbox inv_sbox bdt = bdt_d0_loop sbox inv_sbox 0 bdt"

subsection \<open>compute\_bct of bct\_present.c\<close>

text \<open>
  Standard output is the sequence of \<open>printf\<close> calls made so far, each with its format
  string and its integer arguments.
\<close>

datatype printf_call = Printf string "int list"

type_synonym stdout = "printf_call list"

function print_header_loop :: "int \<Rightarrow> stdout \<Rightarrow> stdout" where
  "print_header_loop b out =
     (if b < 16 then print_header_loop (b + 1) (out @ [Printf ''%2x '' [b]]) else out)"
  by pat_completeness auto
termination
  by (relation "measure (\<lambda>(b, out). nat (16 - b))") auto

declare print_header_loop.simps [simp del]

function print_cell_loop :: "table2 \<Rightarrow> int \<Rightarrow> int \<Rightarrow> stdout \<Rightarrow> stdout" where
  "print_cell_loop bct a b out =
     (if b < 16 then print_cell_loop bct a (b + 1) (out @ [Printf ''%2d '' [bct a b]]) else out)"
  by pat_completeness auto
termination
  by (relation "measure (\<lambda>(bct, a, b, out). nat (16 - b))") auto

declare print_cell_loop.simps [simp del]

function print_row_loop :: "table2 \<Rightarrow> int \<Rightarrow> stdout \<Rightarrow> stdout" where
  "print_row_loop bct a out =
     (if a < 16 then
        print_row_loop bct (a + 1)
          (print_cell_loop bct a 0 (out @ [Printf ''%2x | '' [a]]) @ [Printf [CHR 0x0A] []])
      else out)"
  by pat_completeness auto
termination
  by (relation "measure (\<lambda>(bct, a, out). nat (16 - a))") auto

declare print_row_loop.simps [simp del]

text \<open>
  bct\_present.c, lines 10 to 42: the same table loops with bound 16, followed by the
  print-out of the table (the separator line is a newline, 60 dashes and a newline).
\<close>

definition compute_bct_present ::
  "int list \<Rightarrow> int list \<Rightarrow> table2 \<Rightarrow> stdout \<Rightarrow> (table2 \<times> stdout) option" where
  "compute_bct_present sbox inv_sbox bct out =
     (case bct_a_loop 16 sbox inv_sbox 0 bct of None \<Rightarrow> None
      | Some bct' \<Rightarrow>
          Some (bct',
            print_row_loop bct' 0
              (print_header_loop 0 (out @ [Printf ''  '' []])
                 @ [Printf (CHR 0x0A # replicate 60 (CHR ''-'') @ [CHR 0x0A]) []])))"

subsection \<open>The consistency check of main (bdt.c, lines 103 to 122)\<close>

text \<open>The variable \<open>sum_d1\<close> is \<open>sum\<close> of the source.\<close>

function sum_loop :: "table3 \<Rightarrow> int \<Rightarrow> int \<Rightarrow> int \<Rightarrow> int \<Rightarrow> int" where
  "sum_loop bdt d0 nabla0 d1 sum_d1 =
     (if d1 < 8 then sum_loop bdt d0 nabla0 (d1 + 1) (sum_d1 + bdt d0 d1 nabla0) else sum_d1)"
  by pat_completeness auto
termination
  by (relation "measure (\<lambda>(bdt, d0, nabla0, d1, sum_d1). nat (8 - d1))") auto

declare sum_loop.simps [simp del]

text \<open>
  The state of the check is the pair \<open>(all_ok, valid_count)\<close>. The \<open>printf\<close> calls of
  the two branches report but do not change it, and are left out.
\<close>

function check_nabla0_loop ::
  "table2 \<Rightarrow> table3 \<Rightarrow> int \<Rightarrow> int \<Rightarrow> int \<times> int \<Rightarrow> int \<times> int" where
  "check_nabla0_loop bct bdt d0 nabla0 (all_ok, valid_count) =
     (if nabla0 < 8 then
        (let sum_d1 = sum_loop bdt d0 nabla0 0 0 in
         if sum_d1 = bct d0 nabla0
         then check_nabla0_loop bct bdt d0 (nabla0 + 1) (all_ok, valid_count + 1)
         else check_nabla0_loop bct bdt d0 (nabla0 + 1) (0, valid_count))
      else (all_ok, valid_count))"
  by pat_completeness auto
termination
  by (relation "measure (\<lambda>(bct, bdt, d0, nabla0, st). nat (8 - nabla0))") auto

declare check_nabla0_loop.simps [simp del]

function check_d0_loop :: "table2 \<Rightarrow> table3 \<Rightarrow> int \<Rightarrow> int \<times> int \<Rightarrow> int \<times> int" where
  "check_d0_loop bct bdt d0 st =
     (if d0 < 8 then check_d0_loop bct bdt (d0 + 1) (check_nabla0_loop bct bdt d0 0 st)
      else st)"
  by pat_completeness auto
termination
  by (relation "measure (\<lambda>(bct, bdt, d0, st). nat (8 - d0))") auto

declare check_d0_loop.simps [simp del]

text \<open>
  \<open>main\<close> of bdt.c: both tables are computed from the constants into local arrays
  (whose initial contents are the parameters here), then checked. The result is the final
  \<open>(all_ok, valid_count)\<close>.
\<close>

definition main_bdt :: "table2 \<Rightarrow> table3 \<Rightarrow> (int \<times> int) option" where
  "main_bdt bct0 bdt0 =
     (case compute_bct SBOX INV_SBOX bct0 of None \<Rightarrow> None
      | Some bct \<Rightarrow>
          (case compute_bdt SBOX INV_SBOX bdt0 of None \<Rightarrow> None
           | Some bdt \<Rightarrow> Some (check_d0_loop bct bdt 0 (1, 0))))"

subsection \<open>The notions of the specification\<close>

text \<open>
  The counting equation of the tables, read on the arrays: \<open>x\<close> satisfies it for input
  difference \<open>a\<close>, mask \<open>b\<close> and target \<open>t\<close>.
\<close>

definition boomerang_eq :: "int list \<Rightarrow> int list \<Rightarrow> int \<Rightarrow> int \<Rightarrow> int \<Rightarrow> int \<Rightarrow> bool" where
  "boomerang_eq sbox inv_sbox a b t x =
     (inv_sbox ! nat (sbox ! nat x XOR b) XOR inv_sbox ! nat (sbox ! nat (x XOR a) XOR b) = t)"

text \<open>The \<open>x\<close> in \<open>[0, n)\<close> that satisfy it.\<close>

definition solutions :: "int \<Rightarrow> int list \<Rightarrow> int list \<Rightarrow> int \<Rightarrow> int \<Rightarrow> int \<Rightarrow> int set" where
  "solutions n sbox inv_sbox a b t = set (filter (boomerang_eq sbox inv_sbox a b t) [0..n - 1])"

text \<open>An array of \<open>n\<close> entries, each an index of an array of \<open>n\<close> entries.\<close>

definition in_range :: "int \<Rightarrow> int list \<Rightarrow> bool" where
  "in_range n arr = (int (length arr) = n \<and> (\<forall>v \<in> set arr. 0 \<le> v \<and> v < n))"

definition mutual_inverses :: "int \<Rightarrow> int list \<Rightarrow> int list \<Rightarrow> bool" where
  "mutual_inverses n sbox inv_sbox =
     (in_range n sbox \<and> in_range n inv_sbox \<and>
      (\<forall>v \<in> set [0..n - 1].
         sbox ! nat (inv_sbox ! nat v) = v \<and> inv_sbox ! nat (sbox ! nat v) = v))"

text \<open>Some initial contents for a local table.\<close>

definition zero_table2 :: table2 where
  "zero_table2 a b = 0"

definition zero_table3 :: table3 where
  "zero_table3 d0 d1 nabla0 = 0"

section \<open>Higher-order derivatives of reduced-round Gimli (higher\_order.c)\<close>

subsection \<open>gimli\_permutation\<close>

text \<open>
  The state \<open>uint32_t state[12]\<close> is a list of twelve 32-bit words; every index of
  \<open>gimli_permutation\<close> is below 12. The macro \<open>ROTL32(x,b)\<close> is
  \<open>((x) << (b)) | ((x) >> (32 - (b)))\<close> on \<open>uint32_t\<close>.
\<close>

type_synonym u32 = "32 word"

definition ROTL32 :: "u32 \<Rightarrow> nat \<Rightarrow> u32" where
  "ROTL32 x b = push_bit b x OR drop_bit (32 - b) x"

function column_loop :: "u32 list \<Rightarrow> nat \<Rightarrow> u32 list" where
  "column_loop state col =
     (if col < 4 then
        (let x = ROTL32 (state ! col) 24;
             y = ROTL32 (state ! (col + 4)) 9;
             z = state ! (col + 8);
             state1 = state[col + 8 := (x XOR push_bit 1 z) XOR push_bit 2 (y AND z)];
             state2 = state1[col + 4 := (y XOR x) XOR push_bit 1 (x OR z)];
             state3 = state2[col := (z XOR y) XOR push_bit 3 (x AND y)]
         in column_loop state3 (col + 1))
      else state)"
  by pat_completeness auto
termination
  by (relation "measure (\<lambda>(state, col). 4 - col)") auto

declare column_loop.simps [simp del]

text \<open>
  The two swap blocks of a round, each with its temporary \<open>t\<close>; the first one also
  injects the round constant. The variable \<open>round'\<close> is \<open>round\<close> of the source.
\<close>

definition small_swap :: "u32 list \<Rightarrow> int \<Rightarrow> u32 list" where
  "small_swap state round' =
     (let t = state ! 0; state1 = state[0 := state ! 1]; state2 = state1[1 := t];
          t = state2 ! 2; state3 = state2[2 := state2 ! 3]; state4 = state3[3 := t]
      in state4[0 := state4 ! 0 XOR (0x9e377900 XOR word_of_int round')])"

definition big_swap :: "u32 list \<Rightarrow> u32 list" where
  "big_swap state =
     (let t = state ! 0; state1 = state[0 := state ! 2]; state2 = state1[2 := t];
          t = state2 ! 1; state3 = state2[1 := state2 ! 3]; state4 = state3[3 := t]
      in state4)"

function round_loop :: "u32 list \<Rightarrow> int \<Rightarrow> u32 list" where
  "round_loop state round' =
     (if round' \<ge> 1 then
        (let state1 = column_loop state 0;
             state2 = (if round' AND 3 = 0 then small_swap state1 round' else state1);
             state3 = (if round' AND 3 = 2 then big_swap state2 else state2)
         in round_loop state3 (round' - 1))
      else state)"
  by pat_completeness auto
termination
  by (relation "measure (\<lambda>(state, round'). nat round')") auto

declare round_loop.simps [simp del]

definition gimli_permutation :: "u32 list \<Rightarrow> u32 list" where
  "gimli_permutation state = round_loop state 4"

subsection \<open>compute\_derivative\<close>

text \<open>\<open>generate_bit_basis\<close> fills \<open>basis[i] = 1U << i\<close> for \<open>i\<close> from 0 to 31.\<close>

definition generate_bit_basis :: "u32 list" where
  "generate_bit_basis = map (\<lambda>i. push_bit i 1) [0..<32]"

text \<open>
  The loop of \<open>apply_diff\<close>. The shift \<open>1 << i\<close> on \<open>int\<close> is undefined from \<open>i = 31\<close>
  on, and \<open>temp[word_index]\<close> and \<open>basis[i]\<close> must be inside their arrays: otherwise the
  result is \<open>None\<close>. The variable \<open>subset'\<close> is \<open>subset\<close> of the source.
\<close>

function diff_loop ::
  "int \<Rightarrow> u32 list \<Rightarrow> nat \<Rightarrow> int \<Rightarrow> u32 list \<Rightarrow> nat \<Rightarrow> u32 list option" where
  "diff_loop order basis word_index subset' temp i =
     (if int i < order then
        (if i < 31 then
           (if subset' AND push_bit i 1 \<noteq> 0 then
              (if word_index < length temp \<and> i < length basis then
                 diff_loop order basis word_index subset'
                   (temp[word_index := temp ! word_index XOR basis ! i]) (i + 1)
               else None)
            else diff_loop order basis word_index subset' temp (i + 1))
         else None)
      else Some temp)"
  by pat_completeness auto
termination
  by (relation "measure (\<lambda>(order, basis, word_index, subset', temp, i). nat (order - int i))") auto

declare diff_loop.simps [simp del]

text \<open>\<open>memcpy(temp, base, 12 * sizeof(uint32_t))\<close> copies the twelve words of \<open>base\<close>.\<close>

definition apply_diff ::
  "u32 list \<Rightarrow> int \<Rightarrow> u32 list \<Rightarrow> nat \<Rightarrow> int \<Rightarrow> u32 list option" where
  "apply_diff base order basis word_index subset' =
     (if 12 \<le> length base then diff_loop order basis word_index subset' (take 12 base) 0
      else None)"

function subset_loop ::
  "u32 list \<Rightarrow> nat \<Rightarrow> int \<Rightarrow> u32 list \<Rightarrow> int \<Rightarrow> u32 \<Rightarrow> u32 option" where
  "subset_loop base word_index order basis subset' result =
     (if subset' < push_bit (nat order) 1 then
        (case apply_diff base order basis word_index subset' of None \<Rightarrow> None
         | Some temp \<Rightarrow>
             (let temp' = gimli_permutation temp in
              if word_index < length temp' then
                subset_loop base word_index order basis (subset' + 1)
                  (result XOR temp' ! word_index)
              else None))
      else Some result)"
  by pat_completeness auto
termination
  by (relation "measure (\<lambda>(base, word_index, order, basis, subset', result).
         nat (push_bit (nat order) 1 - subset'))") auto

declare subset_loop.simps [simp del]

text \<open>
  higher\_order.c, lines 67 to 82. The bound \<open>1 << order\<close> is undefined for a negative
  \<open>order\<close> and from \<open>order = 31\<close> on.
\<close>

definition compute_derivative :: "u32 list \<Rightarrow> nat \<Rightarrow> int \<Rightarrow> u32 option" where
  "compute_derivative base word_index order =
     (if 0 \<le> order \<and> order < 31
      then subset_loop base word_index order generate_bit_basis 0 0
      else None)"

subsection \<open>The permutation and the derivative as the specification words them\<close>

text \<open>
  One round at counter \<open>r\<close>: the column step on the four columns, then the swap the
  value of \<open>r mod 4\<close> selects. The permutation runs the rounds 4, 3, 2, 1.
\<close>

definition rotl32 :: "u32 \<Rightarrow> nat \<Rightarrow> u32" where
  "rotl32 w n = word_rotl n w"

definition column_step :: "nat \<Rightarrow> u32 list \<Rightarrow> u32 list" where
  "column_step col s =
     (let x = rotl32 (s ! col) 24; y = rotl32 (s ! (col + 4)) 9; z = s ! (col + 8)
      in s[col + 8 := x XOR push_bit 1 z XOR push_bit 2 (y AND z),
           col + 4 := y XOR x XOR push_bit 1 (x OR z),
           col := z XOR y XOR push_bit 3 (x AND y)])"

definition swap_words :: "nat \<Rightarrow> nat \<Rightarrow> u32 list \<Rightarrow> u32 list" where
  "swap_words i j s = s[i := s ! j, j := s ! i]"

definition gimli_round :: "int \<Rightarrow> u32 list \<Rightarrow> u32 list" where
  "gimli_round r s =
     (let s1 = fold column_step [0, 1, 2, 3] s in
      if r mod 4 = 0 then
        (let s2 = swap_words 2 3 (swap_words 0 1 s1)
         in s2[0 := s2 ! 0 XOR (0x9e377900 XOR word_of_int r)])
      else if r mod 4 = 2 then swap_words 1 3 (swap_words 0 2 s1)
      else s1)"

definition gimli_rounds :: "u32 list \<Rightarrow> u32 list" where
  "gimli_rounds s = fold gimli_round [4, 3, 2, 1] s"

text \<open>
  The derivative of order \<open>order\<close>: the XOR, over all sublists \<open>S\<close> of the masks
  \<open>1 << 0, \<dots>, 1 << (order - 1)\<close>, of word \<open>w\<close> of the permutation of the base state
  with the masks of \<open>S\<close> XORed into word \<open>w\<close>.
\<close>

definition masks :: "nat \<Rightarrow> u32 list" where
  "masks order = map (\<lambda>i. push_bit i 1) [0..<order]"

definition xor_all :: "u32 list \<Rightarrow> u32" where
  "xor_all ws = fold (XOR) ws 0"

definition perturbed :: "u32 list \<Rightarrow> nat \<Rightarrow> u32 list \<Rightarrow> u32 list" where
  "perturbed base w S = base[w := base ! w XOR xor_all S]"

definition derivative :: "u32 list \<Rightarrow> nat \<Rightarrow> nat \<Rightarrow> u32" where
  "derivative base w order =
     xor_all (map (\<lambda>S. gimli_permutation (perturbed base w S) ! w) (subseqs (masks order)))"

section \<open>Properties of the boomerang tables\<close>

subsection \<open>Closed forms of the table loops\<close>

lemma solutions_set:
  "solutions n sbox inv_sbox a b t =
     {x. 0 \<le> x \<and> x < n \<and> boomerang_eq sbox inv_sbox a b t x}"
  by (auto simp: solutions_def)

lemma xor_in_range:
  fixes x y :: int
  assumes "0 \<le> x" "x < 2 ^ k" "0 \<le> y" "y < 2 ^ k"
  shows "0 \<le> x XOR y \<and> x XOR y < 2 ^ k"
  using assms by (simp add: XOR_upper)

lemma rd_in_range:
  assumes "in_range n arr" "0 \<le> i" "i < n"
  shows "rd arr i = Some (arr ! nat i)" "0 \<le> arr ! nat i" "arr ! nat i < n"
  using assms by (auto simp: in_range_def rd_def)

lemma rd_len:
  assumes "int (length arr) = n" "0 \<le> i" "i < n"
  shows "rd arr i = Some (arr ! nat i)"
  using assms by (auto simp: rd_def)

lemma count_loop_eq:
  assumes n: "n = 2 ^ k" and sb: "in_range n sbox" and inv: "int (length inv_sbox) = n"
    and a: "0 \<le> a" "a < n" and b: "0 \<le> b" "b < n"
  shows "0 \<le> x \<Longrightarrow> count_loop n sbox inv_sbox a b t x count =
     Some (count + int (card {x'. x \<le> x' \<and> x' < n \<and> boomerang_eq sbox inv_sbox a b t x'}))"
proof (induction "nat (n - x)" arbitrary: x count)
  case 0
  then have "\<not> x < n" by simp
  then have e: "{x'. x \<le> x' \<and> x' < n \<and> boomerang_eq sbox inv_sbox a b t x'} = {}" by auto
  show ?case by (subst count_loop.simps) (simp add: e \<open>\<not> x < n\<close>)
next
  case (Suc m)
  then have x: "0 \<le> x" "x < n" by simp_all
  let ?P = "boomerang_eq sbox inv_sbox a b t"
  let ?S = "\<lambda>x. {x'. x \<le> x' \<and> x' < n \<and> ?P x'}"
  have r1: "rd sbox x = Some (sbox ! nat x)" and s1: "0 \<le> sbox ! nat x" "sbox ! nat x < n"
    using rd_in_range [OF sb x] by simp_all
  have i1: "0 \<le> sbox ! nat x XOR b \<and> sbox ! nat x XOR b < n"
    using xor_in_range [of "sbox ! nat x" k b] s1 b n by simp
  have xa: "0 \<le> x XOR a \<and> x XOR a < n"
    using xor_in_range [of x k a] x a n by simp
  have r2: "rd sbox (x XOR a) = Some (sbox ! nat (x XOR a))"
    and s2: "0 \<le> sbox ! nat (x XOR a)" "sbox ! nat (x XOR a) < n"
    using rd_in_range [OF sb, of "x XOR a"] xa by simp_all
  have i2: "0 \<le> sbox ! nat (x XOR a) XOR b \<and> sbox ! nat (x XOR a) XOR b < n"
    using xor_in_range [of "sbox ! nat (x XOR a)" k b] s2 b n by simp
  have r3: "rd inv_sbox (sbox ! nat x XOR b) = Some (inv_sbox ! nat (sbox ! nat x XOR b))"
    using rd_len [OF inv] i1 by simp
  have r4: "rd inv_sbox (sbox ! nat (x XOR a) XOR b) = Some (inv_sbox ! nat (sbox ! nat (x XOR a) XOR b))"
    using rd_len [OF inv] i2 by simp
  have m: "m = nat (n - (x + 1))" using Suc.hyps(2) by simp
  have IH: "\<And>c. count_loop n sbox inv_sbox a b t (x + 1) c = Some (c + int (card (?S (x + 1))))"
    using Suc.hyps(1) [OF m] x by simp
  have fin: "finite (?S (x + 1))"
    by (rule finite_subset [of _ "{x + 1..<n}"]) auto
  have split: "?S x = (if ?P x then insert x (?S (x + 1)) else ?S (x + 1))"
    using x by (auto simp: order_le_less)
  have card: "int (card (?S x)) = (if ?P x then 1 else 0) + int (card (?S (x + 1)))"
    by (subst split) (simp add: fin)
  show ?case
    by (subst count_loop.simps) (simp add: x r1 r2 r3 r4 IH card, simp add: boomerang_eq_def)
qed


lemma count_loop_solutions:
  assumes "n = 2 ^ k" "in_range n sbox" "int (length inv_sbox) = n"
    "0 \<le> a" "a < n" "0 \<le> b" "b < n"
  shows "count_loop n sbox inv_sbox a b t 0 0 = Some (int (card (solutions n sbox inv_sbox a b t)))"
  using count_loop_eq [OF assms, of 0 t 0] by (simp add: solutions_set)

lemma bct_b_loop_eq:
  assumes n: "n = 2 ^ k" and sb: "in_range n sbox" and inv: "int (length inv_sbox) = n"
    and a: "0 \<le> a" "a < n"
  shows "0 \<le> b \<Longrightarrow> bct_b_loop n sbox inv_sbox a b bct =
     Some (\<lambda>i j. if i = a \<and> b \<le> j \<and> j < n
                  then int (card (solutions n sbox inv_sbox a j a)) else bct i j)"
proof (induction "nat (n - b)" arbitrary: b bct)
  case 0
  then have "\<not> b < n" by simp
  then have "(\<lambda>i j. if i = a \<and> b \<le> j \<and> j < n
      then int (card (solutions n sbox inv_sbox a j a)) else bct i j) = bct"
    by (auto simp: fun_eq_iff)
  with \<open>\<not> b < n\<close> show ?case by (subst bct_b_loop.simps) simp
next
  case (Suc m)
  then have b: "0 \<le> b" "b < n" by simp_all
  have m: "m = nat (n - (b + 1))" using Suc.hyps(2) by simp
  let ?c = "int (card (solutions n sbox inv_sbox a b a))"
  have c: "count_loop n sbox inv_sbox a b a 0 0 = Some ?c"
    by (rule count_loop_solutions [OF n sb inv a b])
  have IH: "bct_b_loop n sbox inv_sbox a (b + 1) (bct(a := (bct a)(b := ?c))) =
     Some (\<lambda>i j. if i = a \<and> b + 1 \<le> j \<and> j < n
                  then int (card (solutions n sbox inv_sbox a j a))
                  else (bct(a := (bct a)(b := ?c))) i j)"
    using Suc.hyps(1) [OF m] b by simp
  have "(\<lambda>i j. if i = a \<and> b + 1 \<le> j \<and> j < n
                  then int (card (solutions n sbox inv_sbox a j a))
                  else (bct(a := (bct a)(b := ?c))) i j) =
        (\<lambda>i j. if i = a \<and> b \<le> j \<and> j < n
                  then int (card (solutions n sbox inv_sbox a j a)) else bct i j)"
    using b by (auto simp: fun_eq_iff)
  with IH c b show ?case by (subst bct_b_loop.simps) simp
qed

lemma bct_a_loop_eq:
  assumes n: "n = 2 ^ k" and sb: "in_range n sbox" and inv: "int (length inv_sbox) = n"
  shows "0 \<le> a \<Longrightarrow> bct_a_loop n sbox inv_sbox a bct =
     Some (\<lambda>i j. if a \<le> i \<and> i < n \<and> 0 \<le> j \<and> j < n
                  then int (card (solutions n sbox inv_sbox i j i)) else bct i j)"
proof (induction "nat (n - a)" arbitrary: a bct)
  case 0
  then have "\<not> a < n" by simp
  then have "(\<lambda>i j. if a \<le> i \<and> i < n \<and> 0 \<le> j \<and> j < n
      then int (card (solutions n sbox inv_sbox i j i)) else bct i j) = bct"
    by (auto simp: fun_eq_iff)
  with \<open>\<not> a < n\<close> show ?case by (subst bct_a_loop.simps) simp
next
  case (Suc m)
  then have a: "0 \<le> a" "a < n" by simp_all
  have m: "m = nat (n - (a + 1))" using Suc.hyps(2) by simp
  let ?row = "\<lambda>i j. if i = a \<and> 0 \<le> j \<and> j < n
                  then int (card (solutions n sbox inv_sbox a j a)) else bct i j"
  have r: "bct_b_loop n sbox inv_sbox a 0 bct = Some ?row"
    using bct_b_loop_eq [OF n sb inv a, of 0 bct] by simp
  have IH: "bct_a_loop n sbox inv_sbox (a + 1) ?row =
     Some (\<lambda>i j. if a + 1 \<le> i \<and> i < n \<and> 0 \<le> j \<and> j < n
                  then int (card (solutions n sbox inv_sbox i j i)) else ?row i j)"
    using Suc.hyps(1) [OF m] a by simp
  have "(\<lambda>i j. if a + 1 \<le> i \<and> i < n \<and> 0 \<le> j \<and> j < n
                  then int (card (solutions n sbox inv_sbox i j i)) else ?row i j) =
        (\<lambda>i j. if a \<le> i \<and> i < n \<and> 0 \<le> j \<and> j < n
                  then int (card (solutions n sbox inv_sbox i j i)) else bct i j)"
    using a by (auto simp: fun_eq_iff)
  with IH r a show ?case by (subst bct_a_loop.simps) simp
qed


lemma bdt_nabla0_loop_eq:
  assumes sb: "in_range 8 sbox" and inv: "int (length inv_sbox) = 8"
    and d0: "0 \<le> d0" "d0 < 8"
  shows "0 \<le> nabla0 \<Longrightarrow> bdt_nabla0_loop sbox inv_sbox d0 d1 nabla0 bdt =
     Some (\<lambda>i j l. if i = d0 \<and> j = d1 \<and> nabla0 \<le> l \<and> l < 8
                    then int (card (solutions 8 sbox inv_sbox d0 l d1)) else bdt i j l)"
proof (induction "nat (8 - nabla0)" arbitrary: nabla0 bdt)
  case 0
  then have "\<not> nabla0 < 8" by simp
  then have "(\<lambda>i j l. if i = d0 \<and> j = d1 \<and> nabla0 \<le> l \<and> l < 8
      then int (card (solutions 8 sbox inv_sbox d0 l d1)) else bdt i j l) = bdt"
    by (auto simp: fun_eq_iff)
  with \<open>\<not> nabla0 < 8\<close> show ?case by (subst bdt_nabla0_loop.simps) simp
next
  case (Suc m)
  then have b: "0 \<le> nabla0" "nabla0 < 8" by simp_all
  have m: "m = nat (8 - (nabla0 + 1))" using Suc.hyps(2) by simp
  let ?c = "int (card (solutions 8 sbox inv_sbox d0 nabla0 d1))"
  let ?bdt = "bdt(d0 := (bdt d0)(d1 := (bdt d0 d1)(nabla0 := ?c)))"
  have c: "count_loop 8 sbox inv_sbox d0 nabla0 d1 0 0 = Some ?c"
    by (rule count_loop_solutions [where k = 3, OF _ sb inv d0 b]) simp
  have IH: "bdt_nabla0_loop sbox inv_sbox d0 d1 (nabla0 + 1) ?bdt =
     Some (\<lambda>i j l. if i = d0 \<and> j = d1 \<and> nabla0 + 1 \<le> l \<and> l < 8
                    then int (card (solutions 8 sbox inv_sbox d0 l d1)) else ?bdt i j l)"
    using Suc.hyps(1) [OF m] b by simp
  have "(\<lambda>i j l. if i = d0 \<and> j = d1 \<and> nabla0 + 1 \<le> l \<and> l < 8
                    then int (card (solutions 8 sbox inv_sbox d0 l d1)) else ?bdt i j l) =
        (\<lambda>i j l. if i = d0 \<and> j = d1 \<and> nabla0 \<le> l \<and> l < 8
                    then int (card (solutions 8 sbox inv_sbox d0 l d1)) else bdt i j l)"
    using b by (auto simp: fun_eq_iff)
  with IH c b show ?case by (subst bdt_nabla0_loop.simps) simp
qed

lemma bdt_d1_loop_eq:
  assumes sb: "in_range 8 sbox" and inv: "int (length inv_sbox) = 8"
    and d0: "0 \<le> d0" "d0 < 8"
  shows "0 \<le> d1 \<Longrightarrow> bdt_d1_loop sbox inv_sbox d0 d1 bdt =
     Some (\<lambda>i j l. if i = d0 \<and> d1 \<le> j \<and> j < 8 \<and> 0 \<le> l \<and> l < 8
                    then int (card (solutions 8 sbox inv_sbox d0 l j)) else bdt i j l)"
proof (induction "nat (8 - d1)" arbitrary: d1 bdt)
  case 0
  then have "\<not> d1 < 8" by simp
  then have "(\<lambda>i j l. if i = d0 \<and> d1 \<le> j \<and> j < 8 \<and> 0 \<le> l \<and> l < 8
      then int (card (solutions 8 sbox inv_sbox d0 l j)) else bdt i j l) = bdt"
    by (auto simp: fun_eq_iff)
  with \<open>\<not> d1 < 8\<close> show ?case by (subst bdt_d1_loop.simps) simp
next
  case (Suc m)
  then have b: "0 \<le> d1" "d1 < 8" by simp_all
  have m: "m = nat (8 - (d1 + 1))" using Suc.hyps(2) by simp
  let ?row = "\<lambda>i j l. if i = d0 \<and> j = d1 \<and> 0 \<le> l \<and> l < 8
                    then int (card (solutions 8 sbox inv_sbox d0 l d1)) else bdt i j l"
  have r: "bdt_nabla0_loop sbox inv_sbox d0 d1 0 bdt = Some ?row"
    using bdt_nabla0_loop_eq [OF sb inv d0, of 0 d1 bdt] by simp
  have IH: "bdt_d1_loop sbox inv_sbox d0 (d1 + 1) ?row =
     Some (\<lambda>i j l. if i = d0 \<and> d1 + 1 \<le> j \<and> j < 8 \<and> 0 \<le> l \<and> l < 8
                    then int (card (solutions 8 sbox inv_sbox d0 l j)) else ?row i j l)"
    using Suc.hyps(1) [OF m] b by simp
  have "(\<lambda>i j l. if i = d0 \<and> d1 + 1 \<le> j \<and> j < 8 \<and> 0 \<le> l \<and> l < 8
                    then int (card (solutions 8 sbox inv_sbox d0 l j)) else ?row i j l) =
        (\<lambda>i j l. if i = d0 \<and> d1 \<le> j \<and> j < 8 \<and> 0 \<le> l \<and> l < 8
                    then int (card (solutions 8 sbox inv_sbox d0 l j)) else bdt i j l)"
    using b by (auto simp: fun_eq_iff)
  with IH r b show ?case by (subst bdt_d1_loop.simps) simp
qed

lemma bdt_d0_loop_eq:
  assumes sb: "in_range 8 sbox" and inv: "int (length inv_sbox) = 8"
  shows "0 \<le> d0 \<Longrightarrow> bdt_d0_loop sbox inv_sbox d0 bdt =
     Some (\<lambda>i j l. if d0 \<le> i \<and> i < 8 \<and> 0 \<le> j \<and> j < 8 \<and> 0 \<le> l \<and> l < 8
                    then int (card (solutions 8 sbox inv_sbox i l j)) else bdt i j l)"
proof (induction "nat (8 - d0)" arbitrary: d0 bdt)
  case 0
  then have "\<not> d0 < 8" by simp
  then have "(\<lambda>i j l. if d0 \<le> i \<and> i < 8 \<and> 0 \<le> j \<and> j < 8 \<and> 0 \<le> l \<and> l < 8
      then int (card (solutions 8 sbox inv_sbox i l j)) else bdt i j l) = bdt"
    by (auto simp: fun_eq_iff)
  with \<open>\<not> d0 < 8\<close> show ?case by (subst bdt_d0_loop.simps) simp
next
  case (Suc m)
  then have b: "0 \<le> d0" "d0 < 8" by simp_all
  have m: "m = nat (8 - (d0 + 1))" using Suc.hyps(2) by simp
  let ?slab = "\<lambda>i j l. if i = d0 \<and> 0 \<le> j \<and> j < 8 \<and> 0 \<le> l \<and> l < 8
                    then int (card (solutions 8 sbox inv_sbox d0 l j)) else bdt i j l"
  have r: "bdt_d1_loop sbox inv_sbox d0 0 bdt = Some ?slab"
    using bdt_d1_loop_eq [OF sb inv b, of 0 bdt] by simp
  have IH: "bdt_d0_loop sbox inv_sbox (d0 + 1) ?slab =
     Some (\<lambda>i j l. if d0 + 1 \<le> i \<and> i < 8 \<and> 0 \<le> j \<and> j < 8 \<and> 0 \<le> l \<and> l < 8
                    then int (card (solutions 8 sbox inv_sbox i l j)) else ?slab i j l)"
    using Suc.hyps(1) [OF m] b by simp
  have "(\<lambda>i j l. if d0 + 1 \<le> i \<and> i < 8 \<and> 0 \<le> j \<and> j < 8 \<and> 0 \<le> l \<and> l < 8
                    then int (card (solutions 8 sbox inv_sbox i l j)) else ?slab i j l) =
        (\<lambda>i j l. if d0 \<le> i \<and> i < 8 \<and> 0 \<le> j \<and> j < 8 \<and> 0 \<le> l \<and> l < 8
                    then int (card (solutions 8 sbox inv_sbox i l j)) else bdt i j l)"
    using b by (auto simp: fun_eq_iff)
  with IH r b show ?case by (subst bdt_d0_loop.simps) simp
qed

lemma compute_bct_eq:
  assumes "in_range 8 sbox" "int (length inv_sbox) = 8"
  shows "compute_bct sbox inv_sbox bct =
     Some (\<lambda>a b. if 0 \<le> a \<and> a < 8 \<and> 0 \<le> b \<and> b < 8
                  then int (card (solutions 8 sbox inv_sbox a b a)) else bct a b)"
  unfolding compute_bct_def
  using bct_a_loop_eq [where k = 3 and n = 8, OF _ assms, of 0 bct] by simp

lemma compute_bdt_eq:
  assumes "in_range 8 sbox" "int (length inv_sbox) = 8"
  shows "compute_bdt sbox inv_sbox bdt =
     Some (\<lambda>d0 d1 nabla0. if 0 \<le> d0 \<and> d0 < 8 \<and> 0 \<le> d1 \<and> d1 < 8 \<and> 0 \<le> nabla0 \<and> nabla0 < 8
                  then int (card (solutions 8 sbox inv_sbox d0 nabla0 d1)) else bdt d0 d1 nabla0)"
  unfolding compute_bdt_def
  using bdt_d0_loop_eq [OF assms, of 0 bdt] by simp


lemma card_solutions_code:
  "card (solutions n sbox inv_sbox a b t) =
     length (filter (boomerang_eq sbox inv_sbox a b t) [0..n - 1])"
  unfolding solutions_def by (rule distinct_card) simp

subsection \<open>The constant S-boxes\<close>

lemma in_range_SBOX: "in_range 8 SBOX"
  by (simp add: in_range_def SBOX_def)

lemma length_INV_SBOX: "int (length INV_SBOX) = 8"
  by (simp add: INV_SBOX_def)

lemma in_range_SBOX_present: "in_range 16 SBOX_present"
  by (simp add: in_range_def SBOX_present_def)

lemma length_INV_SBOX_present: "int (length INV_SBOX_present) = 16"
  by (simp add: INV_SBOX_present_def)

lemma mutual_inverses_SBOX: "mutual_inverses 8 SBOX INV_SBOX"
  by (simp add: mutual_inverses_def in_range_def SBOX_def INV_SBOX_def upto_rec1)

lemma mutual_inverses_SBOX_present: "mutual_inverses 16 SBOX_present INV_SBOX_present"
  by (simp add: mutual_inverses_def in_range_def SBOX_present_def INV_SBOX_present_def upto_rec1)

subsection \<open>The cells of the tables\<close>

lemma compute_bct_present_eq:
  assumes "in_range 16 sbox" "int (length inv_sbox) = 16"
  shows "compute_bct_present sbox inv_sbox bct out =
     Some (\<lambda>a b. if 0 \<le> a \<and> a < 16 \<and> 0 \<le> b \<and> b < 16
                  then int (card (solutions 16 sbox inv_sbox a b a)) else bct a b,
           print_row_loop (\<lambda>a b. if 0 \<le> a \<and> a < 16 \<and> 0 \<le> b \<and> b < 16
                  then int (card (solutions 16 sbox inv_sbox a b a)) else bct a b) 0
              (print_header_loop 0 (out @ [Printf ''  '' []])
                 @ [Printf (CHR 0x0A # replicate 60 (CHR ''-'') @ [CHR 0x0A]) []]))"
  unfolding compute_bct_present_def
  using bct_a_loop_eq [where k = 4 and n = 16, OF _ assms, of 0 bct] by simp

lemma solutions_unfold:
  "solutions n sbox inv_sbox a b t =
     {x. 0 \<le> x \<and> x < n \<and>
         inv_sbox ! nat (sbox ! nat x XOR b) XOR inv_sbox ! nat (sbox ! nat (x XOR a) XOR b) = t}"
  by (simp add: solutions_set boomerang_eq_def)

text \<open>
  Claim C2. For arrays of \<open>n\<close> entries, the entries of \<open>sbox\<close> being indices below
  \<open>n\<close> (otherwise the C program reads outside \<open>inv_sbox\<close>), \<open>compute_bct\<close> returns,
  and cell \<open>(a, b)\<close> of the table it leaves holds the number of \<open>x\<close> in \<open>[0, n)\<close> with
  \<open>inv_sbox[sbox[x] ^ b] ^ inv_sbox[sbox[x ^ a] ^ b] == a\<close>: with \<open>n = 8\<close> in bdt.c and
  \<open>n = 16\<close> in bct\_present.c.
\<close>

theorem compute_bct_cell_counts:
  "(in_range 8 sbox \<and> int (length inv_sbox) = 8 \<longrightarrow>
      (\<exists>bct'. compute_bct sbox inv_sbox bct = Some bct' \<and>
         (\<forall>a b. 0 \<le> a \<and> a < 8 \<and> 0 \<le> b \<and> b < 8 \<longrightarrow>
            bct' a b = int (card {x. 0 \<le> x \<and> x < 8 \<and>
              inv_sbox ! nat (sbox ! nat x XOR b) XOR
              inv_sbox ! nat (sbox ! nat (x XOR a) XOR b) = a})))) \<and>
   (in_range 16 sbox \<and> int (length inv_sbox) = 16 \<longrightarrow>
      (\<exists>bct' out'. compute_bct_present sbox inv_sbox bct out = Some (bct', out') \<and>
         (\<forall>a b. 0 \<le> a \<and> a < 16 \<and> 0 \<le> b \<and> b < 16 \<longrightarrow>
            bct' a b = int (card {x. 0 \<le> x \<and> x < 16 \<and>
              inv_sbox ! nat (sbox ! nat x XOR b) XOR
              inv_sbox ! nat (sbox ! nat (x XOR a) XOR b) = a}))))"
proof (intro conjI impI)
  assume "in_range 8 sbox \<and> int (length inv_sbox) = 8"
  then show "\<exists>bct'. compute_bct sbox inv_sbox bct = Some bct' \<and>
         (\<forall>a b. 0 \<le> a \<and> a < 8 \<and> 0 \<le> b \<and> b < 8 \<longrightarrow>
            bct' a b = int (card {x. 0 \<le> x \<and> x < 8 \<and>
              inv_sbox ! nat (sbox ! nat x XOR b) XOR
              inv_sbox ! nat (sbox ! nat (x XOR a) XOR b) = a}))"
    by (simp add: compute_bct_eq solutions_unfold)
next
  assume "in_range 16 sbox \<and> int (length inv_sbox) = 16"
  then show "\<exists>bct' out'. compute_bct_present sbox inv_sbox bct out = Some (bct', out') \<and>
         (\<forall>a b. 0 \<le> a \<and> a < 16 \<and> 0 \<le> b \<and> b < 16 \<longrightarrow>
            bct' a b = int (card {x. 0 \<le> x \<and> x < 16 \<and>
              inv_sbox ! nat (sbox ! nat x XOR b) XOR
              inv_sbox ! nat (sbox ! nat (x XOR a) XOR b) = a}))"
    by (simp add: compute_bct_present_eq solutions_unfold)
qed

theorem compute_bct_cell_counts_witness:
  "in_range 8 SBOX \<and> int (length INV_SBOX) = 8 \<and>
   (\<exists>bct'. compute_bct SBOX INV_SBOX zero_table2 = Some bct' \<and>
      bct' 1 1 = int (card {x. 0 \<le> x \<and> x < 8 \<and>
         INV_SBOX ! nat (SBOX ! nat x XOR 1) XOR INV_SBOX ! nat (SBOX ! nat (x XOR 1) XOR 1) = 1})) \<and>
   in_range 16 SBOX_present \<and> int (length INV_SBOX_present) = 16 \<and>
   (\<exists>bct' out'. compute_bct_present SBOX_present INV_SBOX_present zero_table2 [] = Some (bct', out') \<and>
      bct' 6 15 = int (card {x. 0 \<le> x \<and> x < 16 \<and>
         INV_SBOX_present ! nat (SBOX_present ! nat x XOR 15) XOR
         INV_SBOX_present ! nat (SBOX_present ! nat (x XOR 6) XOR 15) = 6}))"
  using compute_bct_cell_counts [of SBOX INV_SBOX zero_table2, THEN conjunct1]
    compute_bct_cell_counts [of SBOX_present INV_SBOX_present zero_table2 "[]", THEN conjunct2]
    in_range_SBOX length_INV_SBOX in_range_SBOX_present length_INV_SBOX_present
  by auto

text \<open>
  Claim C3. For arrays of 8 entries, the entries of \<open>sbox\<close> being indices below 8,
  \<open>compute_bdt\<close> returns, and cell \<open>(d0, d1, nabla0)\<close> of the table it leaves holds the
  number of \<open>x\<close> in \<open>[0, 8)\<close> with
  \<open>inv_sbox[sbox[x] ^ nabla0] ^ inv_sbox[sbox[x ^ d0] ^ nabla0] == d1\<close>.
\<close>

theorem compute_bdt_cell_counts:
  assumes "in_range 8 sbox" and "int (length inv_sbox) = 8"
  shows "\<exists>bdt'. compute_bdt sbox inv_sbox bdt = Some bdt' \<and>
     (\<forall>d0 d1 nabla0.
        0 \<le> d0 \<and> d0 < 8 \<and> 0 \<le> d1 \<and> d1 < 8 \<and> 0 \<le> nabla0 \<and> nabla0 < 8 \<longrightarrow>
        bdt' d0 d1 nabla0 = int (card {x. 0 \<le> x \<and> x < 8 \<and>
          inv_sbox ! nat (sbox ! nat x XOR nabla0) XOR
          inv_sbox ! nat (sbox ! nat (x XOR d0) XOR nabla0) = d1}))"
  using assms by (simp add: compute_bdt_eq solutions_unfold)

theorem compute_bdt_cell_counts_witness:
  "in_range 8 SBOX \<and> int (length INV_SBOX) = 8 \<and>
   (\<exists>bdt'. compute_bdt SBOX INV_SBOX zero_table3 = Some bdt' \<and>
      bdt' 1 7 1 = int (card {x. 0 \<le> x \<and> x < 8 \<and>
         INV_SBOX ! nat (SBOX ! nat x XOR 1) XOR INV_SBOX ! nat (SBOX ! nat (x XOR 1) XOR 1) = 7}))"
  using compute_bdt_cell_counts [OF in_range_SBOX length_INV_SBOX, of zero_table3]
    in_range_SBOX length_INV_SBOX
  by auto

text \<open>
  Claim C8. The two constant pairs are mutual inverses: for every \<open>v\<close> in \<open>[0, 8)\<close>,
  \<open>SBOX[INV_SBOX[v]] == v\<close> and \<open>INV_SBOX[SBOX[v]] == v\<close> in bdt.c, and the same for
  every \<open>v\<close> in \<open>[0, 16)\<close> in bct\_present.c.
\<close>

theorem constant_sboxes_inverse:
  "(\<forall>v. 0 \<le> v \<and> v < 8 \<longrightarrow>
      SBOX ! nat (INV_SBOX ! nat v) = v \<and> INV_SBOX ! nat (SBOX ! nat v) = v) \<and>
   (\<forall>v. 0 \<le> v \<and> v < 16 \<longrightarrow>
      SBOX_present ! nat (INV_SBOX_present ! nat v) = v \<and>
      INV_SBOX_present ! nat (SBOX_present ! nat v) = v)"
proof -
  have "SBOX ! nat (INV_SBOX ! nat v) = v \<and> INV_SBOX ! nat (SBOX ! nat v) = v"
    if "0 \<le> v \<and> v < 8" for v
  proof -
    from that have "v \<in> set [0..8 - 1]" by simp
    with mutual_inverses_SBOX show ?thesis
      unfolding mutual_inverses_def by blast
  qed
  moreover have "SBOX_present ! nat (INV_SBOX_present ! nat v) = v \<and>
      INV_SBOX_present ! nat (SBOX_present ! nat v) = v"
    if "0 \<le> v \<and> v < 16" for v
  proof -
    from that have "v \<in> set [0..16 - 1]" by simp
    with mutual_inverses_SBOX_present show ?thesis
      unfolding mutual_inverses_def by blast
  qed
  ultimately show ?thesis by blast
qed

theorem constant_sboxes_inverse_witness:
  "SBOX ! nat (INV_SBOX ! nat 3) = 3 \<and> INV_SBOX ! nat (SBOX ! nat 3) = 3 \<and>
   SBOX_present ! nat (INV_SBOX_present ! nat 11) = 11 \<and>
   INV_SBOX_present ! nat (SBOX_present ! nat 11) = 11"
  using constant_sboxes_inverse [THEN conjunct1, THEN spec, of 3]
    constant_sboxes_inverse [THEN conjunct2, THEN spec, of 11]
  by simp

subsection \<open>Row and column of the zero difference\<close>

lemma solutions_zero_diff:
  "solutions n sbox inv_sbox 0 b 0 = {0..<n}"
  by (auto simp: solutions_set boomerang_eq_def)

lemma solutions_zero_mask:
  assumes n: "n = 2 ^ k" and mi: "mutual_inverses n sbox inv_sbox" and a: "0 \<le> a" "a < n"
  shows "solutions n sbox inv_sbox a 0 a = {0..<n}"
proof -
  have inv: "inv_sbox ! nat (sbox ! nat v) = v" if "0 \<le> v" "v < n" for v
    using mi that by (simp add: mutual_inverses_def)
  have "boomerang_eq sbox inv_sbox a 0 a x" if x: "0 \<le> x" "x < n" for x
  proof -
    have "0 \<le> x XOR a \<and> x XOR a < n"
      using xor_in_range [of x k a] x a n by simp
    then have "inv_sbox ! nat (sbox ! nat (x XOR a)) = x XOR a" by (simp add: inv)
    moreover have "x XOR (x XOR a) = a" by (simp add: xor.assoc [symmetric])
    ultimately show ?thesis by (simp add: boomerang_eq_def inv x)
  qed
  then show ?thesis by (auto simp: solutions_set)
qed

lemma mutual_inverses_in_range:
  "mutual_inverses n sbox inv_sbox \<Longrightarrow> in_range n sbox"
  "mutual_inverses n sbox inv_sbox \<Longrightarrow> int (length inv_sbox) = n"
  by (simp_all add: mutual_inverses_def in_range_def)


text \<open>
  Claim C6. When \<open>sbox\<close> and \<open>inv_sbox\<close> are mutual inverses over \<open>[0, n)\<close>, the table
  of \<open>compute_bct\<close> has \<open>bct[0][b] == n\<close> for every \<open>b\<close> and \<open>bct[a][0] == n\<close> for every
  \<open>a\<close> in \<open>[0, n)\<close>, with \<open>n = 8\<close> in bdt.c and \<open>n = 16\<close> in bct\_present.c; for the
  constant pair of bct\_present.c, \<open>bct[0][b] == 16\<close> for every \<open>b\<close>.
\<close>

theorem compute_bct_boundary:
  "(mutual_inverses 8 sbox inv_sbox \<longrightarrow>
      (\<exists>bct'. compute_bct sbox inv_sbox bct = Some bct' \<and>
         (\<forall>b. 0 \<le> b \<and> b < 8 \<longrightarrow> bct' 0 b = 8) \<and>
         (\<forall>a. 0 \<le> a \<and> a < 8 \<longrightarrow> bct' a 0 = 8))) \<and>
   (mutual_inverses 16 sbox inv_sbox \<longrightarrow>
      (\<exists>bct' out'. compute_bct_present sbox inv_sbox bct out = Some (bct', out') \<and>
         (\<forall>b. 0 \<le> b \<and> b < 16 \<longrightarrow> bct' 0 b = 16) \<and>
         (\<forall>a. 0 \<le> a \<and> a < 16 \<longrightarrow> bct' a 0 = 16))) \<and>
   (\<exists>bct' out'. compute_bct_present SBOX_present INV_SBOX_present bct out = Some (bct', out') \<and>
      (\<forall>b. 0 \<le> b \<and> b < 16 \<longrightarrow> bct' 0 b = 16))"
proof -
  have p8: "\<exists>bct'. compute_bct sbox inv_sbox bct = Some bct' \<and>
         (\<forall>b. 0 \<le> b \<and> b < 8 \<longrightarrow> bct' 0 b = 8) \<and>
         (\<forall>a. 0 \<le> a \<and> a < 8 \<longrightarrow> bct' a 0 = 8)"
    if mi: "mutual_inverses 8 sbox inv_sbox" for sbox inv_sbox bct
  proof -
    have "solutions 8 sbox inv_sbox a 0 a = {0..<8}" if "0 \<le> a" "a < 8" for a
      using solutions_zero_mask [of 8 3 sbox inv_sbox a] mi that by simp
    then show ?thesis
      by (simp add: compute_bct_eq mutual_inverses_in_range [OF mi] solutions_zero_diff)
  qed
  have p16: "\<exists>bct' out'. compute_bct_present sbox inv_sbox bct out = Some (bct', out') \<and>
         (\<forall>b. 0 \<le> b \<and> b < 16 \<longrightarrow> bct' 0 b = 16) \<and>
         (\<forall>a. 0 \<le> a \<and> a < 16 \<longrightarrow> bct' a 0 = 16)"
    if mi: "mutual_inverses 16 sbox inv_sbox" for sbox inv_sbox bct out
  proof -
    have "solutions 16 sbox inv_sbox a 0 a = {0..<16}" if "0 \<le> a" "a < 16" for a
      using solutions_zero_mask [of 16 4 sbox inv_sbox a] mi that by simp
    then show ?thesis
      by (simp add: compute_bct_present_eq mutual_inverses_in_range [OF mi] solutions_zero_diff)
  qed
  from p16 [OF mutual_inverses_SBOX_present, of bct out]
  have "\<exists>bct' out'. compute_bct_present SBOX_present INV_SBOX_present bct out = Some (bct', out') \<and>
      (\<forall>b. 0 \<le> b \<and> b < 16 \<longrightarrow> bct' 0 b = 16)"
    by blast
  with p8 p16 show ?thesis by blast
qed

theorem compute_bct_boundary_witness:
  "mutual_inverses 8 SBOX INV_SBOX \<and>
   (\<exists>bct'. compute_bct SBOX INV_SBOX zero_table2 = Some bct' \<and> bct' 0 5 = 8 \<and> bct' 5 0 = 8) \<and>
   mutual_inverses 16 SBOX_present INV_SBOX_present \<and>
   (\<exists>bct' out'. compute_bct_present SBOX_present INV_SBOX_present zero_table2 [] = Some (bct', out') \<and>
      bct' 0 9 = 16 \<and> bct' 9 0 = 16)"
proof -
  from compute_bct_boundary [of SBOX INV_SBOX zero_table2, THEN conjunct1]
    mutual_inverses_SBOX
  have "\<exists>bct'. compute_bct SBOX INV_SBOX zero_table2 = Some bct' \<and> bct' 0 5 = 8 \<and> bct' 5 0 = 8"
    by auto
  moreover from
    compute_bct_boundary [of SBOX_present INV_SBOX_present zero_table2 "[]", THEN conjunct2, THEN conjunct1]
    mutual_inverses_SBOX_present
  have "\<exists>bct' out'. compute_bct_present SBOX_present INV_SBOX_present zero_table2 [] = Some (bct', out') \<and>
      bct' 0 9 = 16 \<and> bct' 9 0 = 16"
    by auto
  ultimately show ?thesis
    using mutual_inverses_SBOX mutual_inverses_SBOX_present by blast
qed

subsection \<open>Parity of the entries\<close>

lemma xor_twice: "(x XOR a) XOR a = (x :: int)"
  by (simp add: xor.assoc)

lemma boomerang_eq_shift:
  "boomerang_eq sbox inv_sbox a b t (x XOR a) = boomerang_eq sbox inv_sbox a b t x"
  by (simp add: boomerang_eq_def xor_twice xor.commute)

lemma finite_solutions: "finite (solutions n sbox inv_sbox a b t)"
  by (rule finite_subset [of _ "{0..<n}"]) (auto simp: solutions_set)

lemma even_card_solutions:
  assumes n: "n = 2 ^ k" and a: "0 < a" "a < n"
  shows "even (card (solutions n sbox inv_sbox a b t))"
proof -
  let ?S = "solutions n sbox inv_sbox a b t"
  let ?L = "{x \<in> ?S. x < x XOR a}"
  let ?U = "{x \<in> ?S. x XOR a < x}"
  have ne: "x XOR a \<noteq> x" for x
  proof
    assume e: "x XOR a = x"
    have "a = x XOR (x XOR a)" by (simp add: xor.assoc [symmetric])
    also have "\<dots> = 0" by (simp only: e) simp
    finally show False using a by simp
  qed
  have closed: "x XOR a \<in> ?S" if "x \<in> ?S" for x
  proof -
    from that have x: "0 \<le> x" "x < 2 ^ k" and eq: "boomerang_eq sbox inv_sbox a b t x"
      using n by (simp_all add: solutions_set)
    have "0 \<le> x XOR a \<and> x XOR a < 2 ^ k"
      using xor_in_range [of x k a] x a n by simp
    with eq show ?thesis by (simp add: solutions_set n boomerang_eq_shift)
  qed
  have split: "?S = ?L \<union> ?U" using ne by (auto simp: neq_iff)
  have disj: "?L \<inter> ?U = {}" by auto
  have fin: "finite ?L" "finite ?U" using finite_solutions [of n sbox inv_sbox a b t] by simp_all
  have "bij_betw (\<lambda>x. x XOR a) ?L ?U"
    by (rule bij_betw_byWitness [where f' = "\<lambda>x. x XOR a"]) (auto simp: xor_twice closed)
  then have "card ?L = card ?U" by (rule bij_betw_same_card)
  moreover have "card ?S = card ?L + card ?U"
    by (subst split) (rule card_Un_disjoint [OF fin disj])
  ultimately show ?thesis by simp
qed

text \<open>
  Claim C10. No bijectivity is assumed: for arrays of \<open>n\<close> entries whose \<open>sbox\<close> entries
  are indices below \<open>n\<close>, every entry \<open>bct[a][b]\<close> with \<open>a \<noteq> 0\<close> is even (bdt.c and
  bct\_present.c), and every entry \<open>bdt[d0][d1][nabla0]\<close> with \<open>d0 \<noteq> 0\<close> is even; \<open>x\<close>
  satisfies the counting equation exactly when \<open>x ^ a\<close> does.
\<close>

theorem nonzero_difference_entries_even:
  "(in_range 8 sbox \<and> int (length inv_sbox) = 8 \<and> 0 < a \<and> a < 8 \<and> 0 \<le> b \<and> b < 8 \<longrightarrow>
      (\<exists>bct'. compute_bct sbox inv_sbox bct = Some bct' \<and> bct' a b mod 2 = 0)) \<and>
   (in_range 16 sbox \<and> int (length inv_sbox) = 16 \<and> 0 < a \<and> a < 16 \<and> 0 \<le> b \<and> b < 16 \<longrightarrow>
      (\<exists>bct' out'. compute_bct_present sbox inv_sbox bct out = Some (bct', out') \<and>
         bct' a b mod 2 = 0)) \<and>
   (in_range 8 sbox \<and> int (length inv_sbox) = 8 \<and>
    0 < d0 \<and> d0 < 8 \<and> 0 \<le> d1 \<and> d1 < 8 \<and> 0 \<le> nabla0 \<and> nabla0 < 8 \<longrightarrow>
      (\<exists>bdt'. compute_bdt sbox inv_sbox bdt = Some bdt' \<and> bdt' d0 d1 nabla0 mod 2 = 0)) \<and>
   boomerang_eq sbox inv_sbox a b t (x XOR a) = boomerang_eq sbox inv_sbox a b t x"
proof (intro conjI impI)
  assume h: "in_range 8 sbox \<and> int (length inv_sbox) = 8 \<and> 0 < a \<and> a < 8 \<and> 0 \<le> b \<and> b < 8"
  then have "even (card (solutions 8 sbox inv_sbox a b a))"
    using even_card_solutions [of 8 3 a sbox inv_sbox b a] by simp
  then have "int (card (solutions 8 sbox inv_sbox a b a)) mod 2 = 0"
    by presburger
  with h show "\<exists>bct'. compute_bct sbox inv_sbox bct = Some bct' \<and> bct' a b mod 2 = 0"
    by (simp add: compute_bct_eq)
next
  assume h: "in_range 16 sbox \<and> int (length inv_sbox) = 16 \<and> 0 < a \<and> a < 16 \<and> 0 \<le> b \<and> b < 16"
  then have "even (card (solutions 16 sbox inv_sbox a b a))"
    using even_card_solutions [of 16 4 a sbox inv_sbox b a] by simp
  then have "int (card (solutions 16 sbox inv_sbox a b a)) mod 2 = 0"
    by presburger
  with h show "\<exists>bct' out'. compute_bct_present sbox inv_sbox bct out = Some (bct', out') \<and>
      bct' a b mod 2 = 0"
    by (simp add: compute_bct_present_eq)
next
  assume h: "in_range 8 sbox \<and> int (length inv_sbox) = 8 \<and>
    0 < d0 \<and> d0 < 8 \<and> 0 \<le> d1 \<and> d1 < 8 \<and> 0 \<le> nabla0 \<and> nabla0 < 8"
  then have "even (card (solutions 8 sbox inv_sbox d0 nabla0 d1))"
    using even_card_solutions [of 8 3 d0 sbox inv_sbox nabla0 d1] by simp
  then have "int (card (solutions 8 sbox inv_sbox d0 nabla0 d1)) mod 2 = 0"
    by presburger
  with h show "\<exists>bdt'. compute_bdt sbox inv_sbox bdt = Some bdt' \<and> bdt' d0 d1 nabla0 mod 2 = 0"
    by (simp add: compute_bdt_eq)
next
  show "boomerang_eq sbox inv_sbox a b t (x XOR a) = boomerang_eq sbox inv_sbox a b t x"
    by (rule boomerang_eq_shift)
qed

text \<open>The witness takes an array that is not a permutation.\<close>

theorem nonzero_difference_entries_even_witness:
  "in_range 8 [0, 0, 1, 1, 2, 2, 3, 5] \<and> int (length [3, 1, 4, 1, 5, 9, 2, 6 :: int]) = 8 \<and>
   (\<exists>bct'. compute_bct [0, 0, 1, 1, 2, 2, 3, 5] [3, 1, 4, 1, 5, 9, 2, 6] zero_table2 = Some bct' \<and>
      bct' 3 2 mod 2 = 0) \<and>
   (\<exists>bdt'. compute_bdt [0, 0, 1, 1, 2, 2, 3, 5] [3, 1, 4, 1, 5, 9, 2, 6] zero_table3 = Some bdt' \<and>
      bdt' 3 4 2 mod 2 = 0) \<and>
   in_range 16 SBOX_present \<and> int (length INV_SBOX_present) = 16 \<and>
   (\<exists>bct' out'. compute_bct_present SBOX_present INV_SBOX_present zero_table2 [] = Some (bct', out') \<and>
      bct' 3 2 mod 2 = 0)"
proof -
  have r: "in_range 8 [0, 0, 1, 1, 2, 2, 3, 5]"
    and l: "int (length [3, 1, 4, 1, 5, 9, 2, 6 :: int]) = 8"
    by (simp_all add: in_range_def)
  from r l nonzero_difference_entries_even
    [of "[0, 0, 1, 1, 2, 2, 3, 5]" "[3, 1, 4, 1, 5, 9, 2, 6]" 3 2 zero_table2, THEN conjunct1]
  have 1: "\<exists>bct'. compute_bct [0, 0, 1, 1, 2, 2, 3, 5] [3, 1, 4, 1, 5, 9, 2, 6] zero_table2 = Some bct' \<and>
      bct' 3 2 mod 2 = 0"
    by simp
  from r l nonzero_difference_entries_even
    [of "[0, 0, 1, 1, 2, 2, 3, 5]" "[3, 1, 4, 1, 5, 9, 2, 6]" _ _ _ _ 3 4 2 zero_table3,
      THEN conjunct2, THEN conjunct2, THEN conjunct1]
  have 2: "\<exists>bdt'. compute_bdt [0, 0, 1, 1, 2, 2, 3, 5] [3, 1, 4, 1, 5, 9, 2, 6] zero_table3 = Some bdt' \<and>
      bdt' 3 4 2 mod 2 = 0"
    by simp
  from in_range_SBOX_present length_INV_SBOX_present nonzero_difference_entries_even
    [of SBOX_present INV_SBOX_present 3 2 zero_table2 "[]", THEN conjunct2, THEN conjunct1]
  have 3: "\<exists>bct' out'. compute_bct_present SBOX_present INV_SBOX_present zero_table2 [] = Some (bct', out') \<and>
      bct' 3 2 mod 2 = 0"
    by simp
  from r l 1 2 3 in_range_SBOX_present length_INV_SBOX_present show ?thesis by blast
qed

subsection \<open>The sum of the BDT over its middle index, and the check of main\<close>

lemma sum_loop_unfold: "sum_loop bdt d0 nabla0 0 0 =
   bdt d0 0 nabla0 + bdt d0 1 nabla0 + bdt d0 2 nabla0 + bdt d0 3 nabla0 +
   bdt d0 4 nabla0 + bdt d0 5 nabla0 + bdt d0 6 nabla0 + bdt d0 7 nabla0"
  by (simp add: sum_loop.simps)

lemma check_nabla0_loop_fold:
  "0 \<le> nabla0 \<Longrightarrow> check_nabla0_loop bct bdt d0 nabla0 st =
     fold (\<lambda>nabla0 st. if sum_loop bdt d0 nabla0 0 0 = bct d0 nabla0
                         then (fst st, snd st + 1) else (0, snd st)) [nabla0..7] st"
proof (induction "nat (8 - nabla0)" arbitrary: nabla0 st)
  case 0
  then show ?case by (cases st) (simp add: check_nabla0_loop.simps)
next
  case (Suc m)
  then have b: "0 \<le> nabla0" "nabla0 < 8" by simp_all
  have m: "m = nat (8 - (nabla0 + 1))" using Suc.hyps(2) by simp
  have u: "[nabla0..7] = nabla0 # [nabla0 + 1..7]" using b by (simp add: upto_rec1)
  obtain ok cnt where st: "st = (ok, cnt)" by (cases st)
  from b Suc.hyps(1) [OF m] show ?case unfolding st u
    by (subst check_nabla0_loop.simps) (simp add: Let_def)
qed

lemma check_d0_loop_fold:
  "0 \<le> d0 \<Longrightarrow> check_d0_loop bct bdt d0 st =
     fold (\<lambda>d0. fold (\<lambda>nabla0 st. if sum_loop bdt d0 nabla0 0 0 = bct d0 nabla0
                         then (fst st, snd st + 1) else (0, snd st)) [0..7]) [d0..7] st"
proof (induction "nat (8 - d0)" arbitrary: d0 st)
  case 0
  then show ?case by (simp add: check_d0_loop.simps)
next
  case (Suc m)
  then have b: "0 \<le> d0" "d0 < 8" by simp_all
  have m: "m = nat (8 - (d0 + 1))" using Suc.hyps(2) by simp
  have u: "[d0..7] = d0 # [d0 + 1..7]" using b by (simp add: upto_rec1)
  from b Suc.hyps(1) [OF m] show ?case unfolding u
    by (subst check_d0_loop.simps) (simp add: check_nabla0_loop_fold)
qed

lemma sum_upto8:
  fixes g :: "int \<Rightarrow> nat"
  shows "(\<Sum>i \<in> {0..<8}. g i) = g 0 + g 1 + g 2 + g 3 + g 4 + g 5 + g 6 + g 7"
proof -
  have "{0..<8::int} = set [0..7]" by auto
  then have "(\<Sum>i \<in> {0..<8}. g i) = sum_list (map g [0..7])"
    by (simp only: sum.distinct_set_conv_list [OF distinct_upto])
  then show ?thesis by (simp add: upto_rec1)
qed

lemma solutions_cover:
  assumes sb: "in_range 8 sbox" and inv: "in_range 8 inv_sbox"
    and d0: "0 \<le> d0" "d0 < 8" and n0: "0 \<le> nabla0" "nabla0 < 8"
  shows "(\<Union>d1 \<in> {0..<8}. solutions 8 sbox inv_sbox d0 nabla0 d1) = {0..<8}"
proof
  show "(\<Union>d1 \<in> {0..<8}. solutions 8 sbox inv_sbox d0 nabla0 d1) \<subseteq> {0..<8}"
    by (auto simp: solutions_set)
next
  show "{0..<8} \<subseteq> (\<Union>d1 \<in> {0..<8}. solutions 8 sbox inv_sbox d0 nabla0 d1)"
  proof
    fix x :: int
    assume "x \<in> {0..<8}"
    then have x: "0 \<le> x" "x < 8" by simp_all
    let ?i1 = "sbox ! nat x XOR nabla0"
    let ?i2 = "sbox ! nat (x XOR d0) XOR nabla0"
    have xa: "0 \<le> x XOR d0 \<and> x XOR d0 < 8"
      using xor_in_range [of x 3 d0] x d0 by simp
    have i1: "0 \<le> ?i1 \<and> ?i1 < 8"
      using xor_in_range [of "sbox ! nat x" 3 nabla0] rd_in_range(2,3) [OF sb x] n0 by simp
    have i2: "0 \<le> ?i2 \<and> ?i2 < 8"
      using xor_in_range [of "sbox ! nat (x XOR d0)" 3 nabla0]
        rd_in_range(2,3) [OF sb, of "x XOR d0"] xa n0 by simp
    have "0 \<le> inv_sbox ! nat ?i1 XOR inv_sbox ! nat ?i2 \<and>
          inv_sbox ! nat ?i1 XOR inv_sbox ! nat ?i2 < 8"
      using xor_in_range [of "inv_sbox ! nat ?i1" 3 "inv_sbox ! nat ?i2"]
        rd_in_range(2,3) [OF inv, of ?i1] rd_in_range(2,3) [OF inv, of ?i2] i1 i2 by simp
    then have "inv_sbox ! nat ?i1 XOR inv_sbox ! nat ?i2 \<in> {0..<8}" by simp
    moreover have "x \<in> solutions 8 sbox inv_sbox d0 nabla0 (inv_sbox ! nat ?i1 XOR inv_sbox ! nat ?i2)"
      using x by (simp add: solutions_set boomerang_eq_def)
    ultimately show "x \<in> (\<Union>d1 \<in> {0..<8}. solutions 8 sbox inv_sbox d0 nabla0 d1)"
      by blast
  qed
qed

lemma card_solutions_sum:
  assumes "in_range 8 sbox" "in_range 8 inv_sbox" "0 \<le> d0" "d0 < 8" "0 \<le> nabla0" "nabla0 < 8"
  shows "(\<Sum>d1 \<in> {0..<8}. card (solutions 8 sbox inv_sbox d0 nabla0 d1)) = 8"
proof -
  have "card (\<Union>d1 \<in> {0..<8::int}. solutions 8 sbox inv_sbox d0 nabla0 d1) =
        (\<Sum>d1 \<in> {0..<8}. card (solutions 8 sbox inv_sbox d0 nabla0 d1))"
  proof (rule card_UN_disjoint)
    show "finite {0..<8::int}" by simp
    show "\<forall>d1 \<in> {0..<8}. finite (solutions 8 sbox inv_sbox d0 nabla0 d1)"
      by (simp add: finite_solutions)
    show "\<forall>i \<in> {0..<8}. \<forall>j \<in> {0..<8}. i \<noteq> j \<longrightarrow>
        solutions 8 sbox inv_sbox d0 nabla0 i \<inter> solutions 8 sbox inv_sbox d0 nabla0 j = {}"
      by (auto simp: solutions_set boomerang_eq_def)
  qed
  then show ?thesis by (simp add: solutions_cover [OF assms])
qed

lemma bdt_sum_is_table_size:
  assumes "in_range 8 sbox" "in_range 8 inv_sbox" "0 \<le> d0" "d0 < 8" "0 \<le> nabla0" "nabla0 < 8"
  shows "map_option (\<lambda>bdt. sum_loop bdt d0 nabla0 0 0) (compute_bdt sbox inv_sbox bdt0) = Some 8"
proof -
  have len: "int (length inv_sbox) = 8" using assms(2) by (simp add: in_range_def)
  have "int (\<Sum>d1 \<in> {0..<8}. card (solutions 8 sbox inv_sbox d0 nabla0 d1)) = 8"
    by (simp only: card_solutions_sum [OF assms])
  then show ?thesis
    using assms(3-6) by (simp add: compute_bdt_eq [OF assms(1) len] sum_loop_unfold sum_upto8)
qed

lemma bct_is_bdt_diagonal:
  assumes "in_range 8 sbox" "int (length inv_sbox) = 8" "0 \<le> a" "a < 8" "0 \<le> b" "b < 8"
  shows "map_option (\<lambda>bct. bct a b) (compute_bct sbox inv_sbox bct0) =
         map_option (\<lambda>bdt. bdt a a b) (compute_bdt sbox inv_sbox bdt0)"
  using assms by (simp add: compute_bct_eq compute_bdt_eq)

lemma compute_bct_constants:
  "compute_bct SBOX INV_SBOX bct =
     Some (\<lambda>a b. if 0 \<le> a \<and> a < 8 \<and> 0 \<le> b \<and> b < 8
                  then int (length (filter (boomerang_eq SBOX INV_SBOX a b a) [0..8 - 1]))
                  else bct a b)"
  by (simp only: compute_bct_eq [OF in_range_SBOX length_INV_SBOX] card_solutions_code)

lemma compute_bdt_constants:
  "compute_bdt SBOX INV_SBOX bdt =
     Some (\<lambda>d0 d1 nabla0.
        if 0 \<le> d0 \<and> d0 < 8 \<and> 0 \<le> d1 \<and> d1 < 8 \<and> 0 \<le> nabla0 \<and> nabla0 < 8
        then int (length (filter (boomerang_eq SBOX INV_SBOX d0 nabla0 d1) [0..8 - 1]))
        else bdt d0 d1 nabla0)"
  by (simp only: compute_bdt_eq [OF in_range_SBOX length_INV_SBOX] card_solutions_code)

text \<open>
  Claim C1, evaluated on the constants of bdt.c at \<open>d0 = 1\<close>, \<open>nabla0 = 1\<close>: the sum
  over \<open>d1\<close> of \<open>bdt[1][d1][1]\<close>, as \<open>main\<close> computes it, is 8, while \<open>bct[1][1]\<close> is 2.
\<close>

theorem bdt_sum_differs_from_bct:
  "map_option (\<lambda>bdt. sum_loop bdt 1 1 0 0) (compute_bdt SBOX INV_SBOX bdt0) = Some 8 \<and>
   map_option (\<lambda>bct. bct 1 1) (compute_bct SBOX INV_SBOX bct0) = Some 2"
  unfolding compute_bct_constants compute_bdt_constants sum_loop_unfold option.map
  by code_simp

text \<open>
  Claim C7, evaluated: on the constants of bdt.c, \<open>bct[0][0]\<close> is 8, and the check of
  \<open>main\<close> ends with \<open>all_ok = 0\<close> and \<open>valid_count = 15\<close>: 15 of the 64 pairs are valid,
  49 are mismatches.
\<close>

theorem main_check_result:
  "map_option (\<lambda>bct. bct 0 0) (compute_bct SBOX INV_SBOX bct0) = Some 8 \<and>
   main_bdt bct0 bdt0 = Some (0, 15)"
  unfolding main_bdt_def compute_bct_constants compute_bdt_constants option.case option.map
    check_d0_loop_fold [OF order_refl] sum_loop_unfold
  by code_simp

subsection \<open>What compute\_bct writes and prints\<close>

lemma print_header_loop_eq:
  "0 \<le> b \<Longrightarrow> print_header_loop b out = out @ map (\<lambda>b. Printf ''%2x '' [b]) [b..15]"
proof (induction "nat (16 - b)" arbitrary: b out)
  case 0
  then show ?case by (simp add: print_header_loop.simps)
next
  case (Suc m)
  then have b: "0 \<le> b" "b < 16" by simp_all
  have m: "m = nat (16 - (b + 1))" using Suc.hyps(2) by simp
  have u: "[b..15] = b # [b + 1..15]" using b by (simp add: upto_rec1)
  from b Suc.hyps(1) [OF m] show ?case unfolding u
    by (subst print_header_loop.simps) simp
qed

lemma print_cell_loop_eq:
  "0 \<le> b \<Longrightarrow> print_cell_loop bct a b out = out @ map (\<lambda>b. Printf ''%2d '' [bct a b]) [b..15]"
proof (induction "nat (16 - b)" arbitrary: b out)
  case 0
  then show ?case by (simp add: print_cell_loop.simps)
next
  case (Suc m)
  then have b: "0 \<le> b" "b < 16" by simp_all
  have m: "m = nat (16 - (b + 1))" using Suc.hyps(2) by simp
  have u: "[b..15] = b # [b + 1..15]" using b by (simp add: upto_rec1)
  from b Suc.hyps(1) [OF m] show ?case unfolding u
    by (subst print_cell_loop.simps) simp
qed

lemma print_row_loop_eq:
  "0 \<le> a \<Longrightarrow> print_row_loop bct a out =
     out @ concat (map (\<lambda>a. Printf ''%2x | '' [a] #
                              map (\<lambda>b. Printf ''%2d '' [bct a b]) [0..15] @
                              [Printf [CHR 0x0A] []]) [a..15])"
proof (induction "nat (16 - a)" arbitrary: a out)
  case 0
  then show ?case by (simp add: print_row_loop.simps)
next
  case (Suc m)
  then have a: "0 \<le> a" "a < 16" by simp_all
  have m: "m = nat (16 - (a + 1))" using Suc.hyps(2) by simp
  have u: "[a..15] = a # [a + 1..15]" using a by (simp add: upto_rec1)
  from a Suc.hyps(1) [OF m] show ?case unfolding u
    by (subst print_row_loop.simps) (simp add: print_cell_loop_eq)
qed

lemma print_rows_cong:
  assumes "\<And>a b. 0 \<le> a \<and> a < 16 \<and> 0 \<le> b \<and> b < 16 \<Longrightarrow> t1 a b = t2 a b"
  shows "concat (map (\<lambda>a. Printf ''%2x | '' [a] #
                              map (\<lambda>b. Printf ''%2d '' [t1 a b]) [0..15] @
                              [Printf [CHR 0x0A] []]) [0..15]) =
         concat (map (\<lambda>a. Printf ''%2x | '' [a] #
                              map (\<lambda>b. Printf ''%2d '' [t2 a b]) [0..15] @
                              [Printf [CHR 0x0A] []]) [0..15])"
proof -
  have "map (\<lambda>b. Printf ''%2d '' [t1 a b]) [0..15] = map (\<lambda>b. Printf ''%2d '' [t2 a b]) [0..15]"
    if "a \<in> set [0..15]" for a
    using that by (intro map_cong refl) (simp add: assms)
  then show ?thesis
    by (intro arg_cong [where f = concat] map_cong refl) simp
qed

text \<open>What \<open>compute_bct\<close> of bct\_present.c prints for a table: 306 calls of \<open>printf\<close>.\<close>

lemma compute_bct_present_output:
  assumes "in_range 16 sbox" "int (length inv_sbox) = 16"
  shows "\<exists>bct'. compute_bct_present sbox inv_sbox bct out =
     Some (bct', out @ Printf ''  '' [] # map (\<lambda>b. Printf ''%2x '' [b]) [0..15] @
        Printf (CHR 0x0A # replicate 60 (CHR ''-'') @ [CHR 0x0A]) [] #
        concat (map (\<lambda>a. Printf ''%2x | '' [a] #
             map (\<lambda>b. Printf ''%2d '' [int (card (solutions 16 sbox inv_sbox a b a))]) [0..15] @
             [Printf [CHR 0x0A] []]) [0..15])) \<and>
     (\<forall>a b. bct' a b = (if 0 \<le> a \<and> a < 16 \<and> 0 \<le> b \<and> b < 16
                  then int (card (solutions 16 sbox inv_sbox a b a)) else bct a b))"
proof -
  let ?t = "\<lambda>a b. if 0 \<le> a \<and> a < 16 \<and> 0 \<le> b \<and> b < 16
                  then int (card (solutions 16 sbox inv_sbox a b a)) else bct a b"
  have "concat (map (\<lambda>a. Printf ''%2x | '' [a] #
             map (\<lambda>b. Printf ''%2d '' [?t a b]) [0..15] @ [Printf [CHR 0x0A] []]) [0..15]) =
        concat (map (\<lambda>a. Printf ''%2x | '' [a] #
             map (\<lambda>b. Printf ''%2d '' [int (card (solutions 16 sbox inv_sbox a b a))]) [0..15] @
             [Printf [CHR 0x0A] []]) [0..15])"
    by (rule print_rows_cong) simp
  then show ?thesis
    by (simp add: compute_bct_present_eq [OF assms] print_row_loop_eq print_header_loop_eq)
qed

lemma printed_length:
  "length (Printf ''  '' [] # map (\<lambda>b. Printf ''%2x '' [b]) [0..15] @
        Printf (CHR 0x0A # replicate 60 (CHR ''-'') @ [CHR 0x0A]) [] #
        concat (map (\<lambda>a. Printf ''%2x | '' [a] #
             map (\<lambda>b. Printf ''%2d '' [f a b]) [0..15] @
             [Printf [CHR 0x0A] []]) [0..15])) = 306"
proof -
  have l: "length [0..15] = 16" by simp
  have "length (concat (map (\<lambda>a. Printf ''%2x | '' [a] #
             map (\<lambda>b. Printf ''%2d '' [f a b]) [0..15] @
             [Printf [CHR 0x0A] []]) [0..15])) = 16 * 18"
    by (simp add: length_concat o_def sum_list_triv)
  then show ?thesis by simp
qed

text \<open>
  Claim C9, as the code has it. In bdt.c, \<open>compute_bct\<close> only writes the 64 cells of its
  table, and what it leaves there does not depend on what the table held before: it is
  determined by \<open>sbox\<close> and \<open>inv_sbox\<close>. In bct\_present.c, \<open>compute_bct\<close> writes the 256
  cells of its table in the same way and then prints the table: it appends 306 \<open>printf\<close>
  calls to standard output, the same ones whatever the table and the output held before.
\<close>

theorem compute_bct_effects:
  "(in_range 8 sbox \<and> int (length inv_sbox) = 8 \<longrightarrow>
      (\<exists>t1 t2. compute_bct sbox inv_sbox bct1 = Some t1 \<and>
         compute_bct sbox inv_sbox bct2 = Some t2 \<and>
         (\<forall>a b. 0 \<le> a \<and> a < 8 \<and> 0 \<le> b \<and> b < 8 \<longrightarrow> t1 a b = t2 a b) \<and>
         (\<forall>a b. \<not> (0 \<le> a \<and> a < 8 \<and> 0 \<le> b \<and> b < 8) \<longrightarrow>
            t1 a b = bct1 a b \<and> t2 a b = bct2 a b))) \<and>
   (in_range 16 sbox \<and> int (length inv_sbox) = 16 \<longrightarrow>
      (\<exists>t1 t2 printed.
         compute_bct_present sbox inv_sbox bct1 out1 = Some (t1, out1 @ printed) \<and>
         compute_bct_present sbox inv_sbox bct2 out2 = Some (t2, out2 @ printed) \<and>
         length printed = 306 \<and>
         (\<forall>a b. 0 \<le> a \<and> a < 16 \<and> 0 \<le> b \<and> b < 16 \<longrightarrow> t1 a b = t2 a b) \<and>
         (\<forall>a b. \<not> (0 \<le> a \<and> a < 16 \<and> 0 \<le> b \<and> b < 16) \<longrightarrow>
            t1 a b = bct1 a b \<and> t2 a b = bct2 a b)))"
proof (intro conjI impI)
  assume "in_range 8 sbox \<and> int (length inv_sbox) = 8"
  then show "\<exists>t1 t2. compute_bct sbox inv_sbox bct1 = Some t1 \<and>
         compute_bct sbox inv_sbox bct2 = Some t2 \<and>
         (\<forall>a b. 0 \<le> a \<and> a < 8 \<and> 0 \<le> b \<and> b < 8 \<longrightarrow> t1 a b = t2 a b) \<and>
         (\<forall>a b. \<not> (0 \<le> a \<and> a < 8 \<and> 0 \<le> b \<and> b < 8) \<longrightarrow>
            t1 a b = bct1 a b \<and> t2 a b = bct2 a b)"
    by (simp add: compute_bct_eq)
next
  assume h: "in_range 16 sbox \<and> int (length inv_sbox) = 16"
  let ?printed = "Printf ''  '' [] # map (\<lambda>b. Printf ''%2x '' [b]) [0..15] @
        Printf (CHR 0x0A # replicate 60 (CHR ''-'') @ [CHR 0x0A]) [] #
        concat (map (\<lambda>a. Printf ''%2x | '' [a] #
             map (\<lambda>b. Printf ''%2d '' [int (card (solutions 16 sbox inv_sbox a b a))]) [0..15] @
             [Printf [CHR 0x0A] []]) [0..15])"
  from h compute_bct_present_output [of sbox inv_sbox bct1 out1]
  obtain t1 where t1: "compute_bct_present sbox inv_sbox bct1 out1 = Some (t1, out1 @ ?printed)"
    "\<forall>a b. t1 a b = (if 0 \<le> a \<and> a < 16 \<and> 0 \<le> b \<and> b < 16
                  then int (card (solutions 16 sbox inv_sbox a b a)) else bct1 a b)"
    by blast
  from h compute_bct_present_output [of sbox inv_sbox bct2 out2]
  obtain t2 where t2: "compute_bct_present sbox inv_sbox bct2 out2 = Some (t2, out2 @ ?printed)"
    "\<forall>a b. t2 a b = (if 0 \<le> a \<and> a < 16 \<and> 0 \<le> b \<and> b < 16
                  then int (card (solutions 16 sbox inv_sbox a b a)) else bct2 a b)"
    by blast
  have "length ?printed = 306" by (rule printed_length)
  with t1 t2 show "\<exists>t1 t2 printed.
         compute_bct_present sbox inv_sbox bct1 out1 = Some (t1, out1 @ printed) \<and>
         compute_bct_present sbox inv_sbox bct2 out2 = Some (t2, out2 @ printed) \<and>
         length printed = 306 \<and>
         (\<forall>a b. 0 \<le> a \<and> a < 16 \<and> 0 \<le> b \<and> b < 16 \<longrightarrow> t1 a b = t2 a b) \<and>
         (\<forall>a b. \<not> (0 \<le> a \<and> a < 16 \<and> 0 \<le> b \<and> b < 16) \<longrightarrow>
            t1 a b = bct1 a b \<and> t2 a b = bct2 a b)"
    by (intro exI [of _ t1] exI [of _ t2] exI [of _ ?printed]) simp
qed

theorem compute_bct_effects_witness:
  "in_range 8 SBOX \<and> int (length INV_SBOX) = 8 \<and>
   (\<exists>t1 t2. compute_bct SBOX INV_SBOX zero_table2 = Some t1 \<and>
      compute_bct SBOX INV_SBOX (zero_table3 1) = Some t2 \<and> t1 3 4 = t2 3 4 \<and>
      t1 8 0 = zero_table2 8 0) \<and>
   in_range 16 SBOX_present \<and> int (length INV_SBOX_present) = 16 \<and>
   (\<exists>t1 t2 printed.
      compute_bct_present SBOX_present INV_SBOX_present zero_table2 [] = Some (t1, [] @ printed) \<and>
      compute_bct_present SBOX_present INV_SBOX_present (zero_table3 1) [Printf ''  '' []] =
        Some (t2, [Printf ''  '' []] @ printed) \<and>
      length printed = 306 \<and> t1 3 4 = t2 3 4)"
proof -
  from compute_bct_effects [of SBOX INV_SBOX zero_table2 "zero_table3 1", THEN conjunct1]
    in_range_SBOX length_INV_SBOX
  have 1: "\<exists>t1 t2. compute_bct SBOX INV_SBOX zero_table2 = Some t1 \<and>
      compute_bct SBOX INV_SBOX (zero_table3 1) = Some t2 \<and> t1 3 4 = t2 3 4 \<and>
      t1 8 0 = zero_table2 8 0"
    by auto
  from compute_bct_effects [of SBOX_present INV_SBOX_present zero_table2 "zero_table3 1"
      "[]" "[Printf ''  '' []]", THEN conjunct2]
    in_range_SBOX_present length_INV_SBOX_present
  obtain t1 t2 printed where
    "compute_bct_present SBOX_present INV_SBOX_present zero_table2 [] = Some (t1, [] @ printed)"
    "compute_bct_present SBOX_present INV_SBOX_present (zero_table3 1) [Printf ''  '' []] =
        Some (t2, [Printf ''  '' []] @ printed)"
    "length printed = 306" 
    "\<forall>a b. 0 \<le> a \<and> a < 16 \<and> 0 \<le> b \<and> b < 16 \<longrightarrow> t1 a b = t2 a b"
    by blast
  then have 2: "\<exists>t1 t2 printed.
      compute_bct_present SBOX_present INV_SBOX_present zero_table2 [] = Some (t1, [] @ printed) \<and>
      compute_bct_present SBOX_present INV_SBOX_present (zero_table3 1) [Printf ''  '' []] =
        Some (t2, [Printf ''  '' []] @ printed) \<and>
      length printed = 306 \<and> t1 3 4 = t2 3 4"
    by (intro exI [of _ t1] exI [of _ t2] exI [of _ printed]) simp
  from 1 2 in_range_SBOX length_INV_SBOX in_range_SBOX_present length_INV_SBOX_present
  show ?thesis by blast
qed

text \<open>
  Claim C9 as stated fails for bct\_present.c: called on its constants with nothing
  printed so far, \<open>compute_bct\<close> leaves standard output non-empty.
\<close>

theorem compute_bct_present_prints:
  "map_option snd (compute_bct_present SBOX_present INV_SBOX_present zero_table2 []) \<noteq> Some []"
proof -
  from compute_bct_present_output [OF in_range_SBOX_present length_INV_SBOX_present, of zero_table2 "[]"]
  show ?thesis by auto
qed

section \<open>Properties of the permutation and of the derivative\<close>

subsection \<open>The permutation, round by round\<close>

lemma ROTL32_eq_rotl32:
  assumes "0 < b" "b < 32"
  shows "ROTL32 x b = rotl32 x b"
  unfolding ROTL32_def rotl32_def
proof (rule bit_word_eqI)
  fix n
  assume "n < LENGTH(32)"
  then have n: "n < 32" by simp
  have high: "\<not> bit x m" if "32 \<le> m" for m
    using bit_imp_le_length [of x m] that by auto
  show "bit (push_bit b x OR drop_bit (32 - b) x) n \<longleftrightarrow> bit (word_rotl b x) n"
  proof (cases "n < b")
    case True
    then have "(n + (32 - b)) mod 32 = 32 - b + n" using assms n by simp
    with True n assms show ?thesis by (simp add: bit_simps)
  next
    case False
    then have m: "(n + (32 - b)) mod 32 = n - b" 
      using assms n by (simp add: mod_if)
    from False assms have "32 \<le> 32 - b + n" by simp
    then have "\<not> bit x (32 - b + n)" by (rule high)
    with False n assms m show ?thesis by (simp add: bit_simps)
  qed
qed

lemma column_loop_step:
  "col < 4 \<Longrightarrow> column_loop state col = column_loop (column_step col state) (col + 1)"
  by (subst column_loop.simps)
    (simp add: column_step_def Let_def ROTL32_eq_rotl32 xor.assoc)

lemma column_loop_columns:
  "column_loop state 0 = fold column_step [0, 1, 2, 3] state"
proof -
  have stop: "column_loop s 4 = s" for s
    by (subst column_loop.simps) simp
  have "column_loop state 0 = column_loop (column_step 0 state) 1"
    using column_loop_step [of 0 state] by (simp add: eval_nat_numeral)
  also have "\<dots> = column_loop (column_step 1 (column_step 0 state)) 2"
    using column_loop_step [of 1 "column_step 0 state"] by (simp add: eval_nat_numeral)
  also have "\<dots> = column_loop (column_step 2 (column_step 1 (column_step 0 state))) 3"
    using column_loop_step [of 2 "column_step 1 (column_step 0 state)"]
    by (simp add: eval_nat_numeral)
  also have "\<dots> =
      column_loop (column_step 3 (column_step 2 (column_step 1 (column_step 0 state)))) 4"
    using column_loop_step [of 3 "column_step 2 (column_step 1 (column_step 0 state))"]
    by (simp add: eval_nat_numeral)
  finally show ?thesis by (simp add: stop)
qed

lemma small_swap_words:
  "small_swap s r = (let s2 = swap_words 2 3 (swap_words 0 1 s)
         in s2[0 := s2 ! 0 XOR (0x9e377900 XOR word_of_int r)])"
  by (simp add: small_swap_def swap_words_def Let_def list_update_swap)


lemma big_swap_words: "big_swap s = swap_words 1 3 (swap_words 0 2 s)"
  by (simp add: big_swap_def swap_words_def Let_def list_update_swap)

lemma round_loop_step:
  assumes "1 \<le> r"
  shows "round_loop state r = round_loop (gimli_round r state) (r - 1)"
proof -
  have "r AND mask 2 = r mod 2 ^ 2"
    by (simp only: take_bit_eq_mask [symmetric] take_bit_eq_mod)
  then have m: "r AND 3 = r mod 4"
    by (simp add: mask_eq_exp_minus_1)
  show ?thesis
    using assms
    by (subst round_loop.simps)
      (simp add: m gimli_round_def Let_def column_loop_columns small_swap_words big_swap_words)
qed

lemma gimli_permutation_rounds: "gimli_permutation state = gimli_rounds state"
proof -
  have stop: "round_loop s 0 = s" for s
    by (subst round_loop.simps) simp
  have "round_loop state 4 = round_loop (gimli_round 4 state) 3"
    using round_loop_step [of 4 state] by simp
  also have "\<dots> = round_loop (gimli_round 3 (gimli_round 4 state)) 2"
    using round_loop_step [of 3 "gimli_round 4 state"] by simp
  also have "\<dots> = round_loop (gimli_round 2 (gimli_round 3 (gimli_round 4 state))) 1"
    using round_loop_step [of 2 "gimli_round 3 (gimli_round 4 state)"] by simp
  also have "\<dots> =
      round_loop (gimli_round 1 (gimli_round 2 (gimli_round 3 (gimli_round 4 state)))) 0"
    using round_loop_step [of 1 "gimli_round 2 (gimli_round 3 (gimli_round 4 state))"] by simp
  finally show ?thesis by (simp add: gimli_permutation_def gimli_rounds_def stop)
qed

lemma length_column_step [simp]: "length (column_step col s) = length s"
  by (simp add: column_step_def Let_def)

lemma length_swap_words [simp]: "length (swap_words i j s) = length s"
  by (simp add: swap_words_def)

lemma length_gimli_round [simp]: "length (gimli_round r s) = length s"
  by (simp add: gimli_round_def Let_def)

lemma length_gimli_permutation [simp]: "length (gimli_permutation s) = length s"
  by (simp add: gimli_permutation_rounds gimli_rounds_def)

text \<open>
  Claim C5. On a state of twelve words, \<open>gimli_permutation\<close> runs the rounds 4, 3, 2, 1.
  A round applies the column step to the columns 0 to 3: with \<open>x = rotl32(state[col], 24)\<close>,
  \<open>y = rotl32(state[col+4], 9)\<close>, \<open>z = state[col+8]\<close> it sets
  \<open>state[col+8] = x ^ (z << 1) ^ ((y & z) << 2)\<close>,
  \<open>state[col+4] = y ^ x ^ ((x | z) << 1)\<close>, \<open>state[col] = z ^ y ^ ((x & y) << 3)\<close> and leaves
  the other words. Then, when the round counter is 0 modulo 4, it swaps words 0, 1 and
  words 2, 3 and XORs \<open>0x9e377900 ^ round\<close> into word 0; when it is 2 modulo 4, it swaps
  words 0, 2 and words 1, 3.
\<close>

theorem gimli_permutation_rounds_spec:
  assumes "length state = 12"
  shows "gimli_permutation state = fold gimli_round [4, 3, 2, 1] state \<and>
    length (gimli_permutation state) = 12 \<and>
    (\<forall>col < 4.
       column_step col state ! (col + 8) =
         rotl32 (state ! col) 24 XOR push_bit 1 (state ! (col + 8)) XOR
         push_bit 2 (rotl32 (state ! (col + 4)) 9 AND state ! (col + 8)) \<and>
       column_step col state ! (col + 4) =
         rotl32 (state ! (col + 4)) 9 XOR rotl32 (state ! col) 24 XOR
         push_bit 1 (rotl32 (state ! col) 24 OR state ! (col + 8)) \<and>
       column_step col state ! col =
         state ! (col + 8) XOR rotl32 (state ! (col + 4)) 9 XOR
         push_bit 3 (rotl32 (state ! col) 24 AND rotl32 (state ! (col + 4)) 9) \<and>
       (\<forall>i. i \<noteq> col \<and> i \<noteq> col + 4 \<and> i \<noteq> col + 8 \<longrightarrow>
          column_step col state ! i = state ! i))"
proof (intro conjI allI impI)
  show "gimli_permutation state = fold gimli_round [4, 3, 2, 1] state"
    using gimli_permutation_rounds [of state] by (simp only: gimli_rounds_def)
  show "length (gimli_permutation state) = 12"
    using assms by simp
next
  fix col :: nat
  assume "col < 4"
  with assms show "column_step col state ! (col + 8) =
         rotl32 (state ! col) 24 XOR push_bit 1 (state ! (col + 8)) XOR
         push_bit 2 (rotl32 (state ! (col + 4)) 9 AND state ! (col + 8))"
    by (simp add: column_step_def Let_def)
  from \<open>col < 4\<close> assms show "column_step col state ! (col + 4) =
         rotl32 (state ! (col + 4)) 9 XOR rotl32 (state ! col) 24 XOR
         push_bit 1 (rotl32 (state ! col) 24 OR state ! (col + 8))"
    by (simp add: column_step_def Let_def)
  from \<open>col < 4\<close> assms show "column_step col state ! col =
         state ! (col + 8) XOR rotl32 (state ! (col + 4)) 9 XOR
         push_bit 3 (rotl32 (state ! col) 24 AND rotl32 (state ! (col + 4)) 9)"
    by (simp add: column_step_def Let_def)
next
  fix col i :: nat
  assume "i \<noteq> col \<and> i \<noteq> col + 4 \<and> i \<noteq> col + 8"
  then show "column_step col state ! i = state ! i"
    by (simp add: column_step_def Let_def)
qed

text \<open>The witness is the initial state of \<open>main\<close>.\<close>

theorem gimli_permutation_rounds_spec_witness:
  "length [1, 0, 0, 0, 0, 0, 0, 0, 0, 0, 0, 0 :: u32] = 12 \<and>
   gimli_permutation [1, 0, 0, 0, 0, 0, 0, 0, 0, 0, 0, 0] =
     [27065353, 0, 0, 0, 704878515, 0, 2863034231, 0, 1399736180, 0, 1717708077, 0]"
proof -
  have l: "length [1, 0, 0, 0, 0, 0, 0, 0, 0, 0, 0, 0 :: u32] = 12" by simp
  have "fold gimli_round [4, 3, 2, 1] [1, 0, 0, 0, 0, 0, 0, 0, 0, 0, 0, 0] =
     [27065353, 0, 0, 0, 704878515, 0, 2863034231, 0, 1399736180, 0, 1717708077, 0]"
    by code_simp
  with gimli_permutation_rounds_spec [OF l] l show ?thesis by simp
qed

subsection \<open>The derivative as a XOR over perturbed states\<close>

lemma take_bit_Suc_xor:
  "take_bit (Suc i) (s :: int) = take_bit i s XOR (if bit s i then push_bit i 1 else 0)"
  by (rule bit_eqI) (auto simp: bit_simps less_Suc_eq)

lemma word_take_bit_Suc:
  "(word_of_int (take_bit (Suc i) s) :: u32) =
     word_of_int (take_bit i s) XOR (if bit s i then push_bit i 1 else 0)"
  by (simp add: take_bit_Suc_xor of_int_xor_eq of_int_push_bit del: take_bit_Suc)

lemma basis_nth: "i < 32 \<Longrightarrow> generate_bit_basis ! i = push_bit i 1"
  by (simp add: generate_bit_basis_def)

lemma length_basis: "length generate_bit_basis = 32"
  by (simp add: generate_bit_basis_def)

lemma diff_loop_eq:
  assumes w: "word_index < length base" and order: "order \<le> 31"
  shows "int i \<le> order \<Longrightarrow>
     diff_loop order generate_bit_basis word_index s
       (base[word_index := base ! word_index XOR word_of_int (take_bit i s)]) i =
     Some (base[word_index := base ! word_index XOR word_of_int (take_bit (nat order) s)])"
proof (induction "nat (order - int i)" arbitrary: i)
  case 0
  then have "nat order = i" "\<not> int i < order" by simp_all
  then show ?case by (subst diff_loop.simps) simp
next
  case (Suc m)
  then have i: "int i < order" "i < 31" "i < 32" using order by simp_all
  have m: "m = nat (order - int (i + 1))" using Suc.hyps(2) by simp
  have IH: "diff_loop order generate_bit_basis word_index s
       (base[word_index := base ! word_index XOR word_of_int (take_bit (Suc i) s)]) (i + 1) =
     Some (base[word_index := base ! word_index XOR word_of_int (take_bit (nat order) s)])"
    using Suc.hyps(1) [OF m] i by simp
  have c: "(s AND push_bit i 1 \<noteq> 0) = bit s i"
    by (simp only: bit_iff_and_push_bit_not_eq_0)
  then have c2: "(s AND 2 ^ i = 0) = (\<not> bit s i)"
    unfolding push_bit_of_1 by blast
  show ?case
  proof (cases "bit s i")
    case True
    with IH have "diff_loop order generate_bit_basis word_index s
       (base[word_index := base ! word_index XOR word_of_int (take_bit i s) XOR push_bit i 1])
       (i + 1) =
     Some (base[word_index := base ! word_index XOR word_of_int (take_bit (nat order) s)])"
      by (simp only: word_take_bit_Suc if_True)
    with True show ?thesis
      by (subst diff_loop.simps) (simp add: c c2 i w basis_nth length_basis xor.assoc)
  next
    case False
    with IH have "diff_loop order generate_bit_basis word_index s
       (base[word_index := base ! word_index XOR word_of_int (take_bit i s)]) (i + 1) =
     Some (base[word_index := base ! word_index XOR word_of_int (take_bit (nat order) s)])"
      by (simp only: word_take_bit_Suc if_False xor.right_neutral)
    with False show ?thesis
      by (subst diff_loop.simps) (simp add: c c2 i)
  qed
qed

lemma apply_diff_eq:
  assumes "length base = 12" "word_index < 12" "0 \<le> order" "order \<le> 31"
    "0 \<le> s" "s < 2 ^ nat order"
  shows "apply_diff base order generate_bit_basis word_index s =
     Some (base[word_index := base ! word_index XOR word_of_int s])"
proof -
  have "take_bit (nat order) s = s"
    using assms(5,6) by (simp add: take_bit_int_eq_self)
  moreover have "base[word_index := base ! word_index XOR word_of_int (take_bit 0 s)] = base"
    by simp
  ultimately show ?thesis
    using diff_loop_eq [of word_index base order 0 s] assms(1-4)
    by (simp add: apply_diff_def)
qed

lemma subset_loop_eq:
  assumes "length base = 12" "word_index < 12" "0 \<le> order" "order \<le> 31"
  shows "0 \<le> s \<Longrightarrow>
     subset_loop base word_index order generate_bit_basis s result =
     Some (fold (\<lambda>s r. r XOR gimli_permutation
                    (base[word_index := base ! word_index XOR word_of_int s]) ! word_index)
             [s..2 ^ nat order - 1] result)"
proof (induction "nat (2 ^ nat order - s)" arbitrary: s result)
  case 0
  then have "\<not> s < 2 ^ nat order" by simp
  then show ?case by (subst subset_loop.simps) (simp add: push_bit_of_1)
next
  case (Suc m)
  then have s: "0 \<le> s" "s < 2 ^ nat order" by simp_all
  have m: "m = nat (2 ^ nat order - (s + 1))" using Suc.hyps(2) by simp
  have u: "[s..2 ^ nat order - 1] = s # [s + 1..2 ^ nat order - 1]"
    using s by (simp add: upto_rec1)
  from s Suc.hyps(1) [OF m] show ?case unfolding u
    by (subst subset_loop.simps)
      (simp add: push_bit_of_1 apply_diff_eq [OF assms s] assms(1,2) length_gimli_permutation)
qed

lemma compute_derivative_eq:
  assumes "length base = 12" "word_index < 12" "0 \<le> order" "order < 31"
  shows "compute_derivative base word_index order =
     Some (fold (\<lambda>s r. r XOR gimli_permutation
                    (base[word_index := base ! word_index XOR word_of_int s]) ! word_index)
             [0..2 ^ nat order - 1] 0)"
  using assms subset_loop_eq [of base word_index order 0 0]
  by (simp add: compute_derivative_def)



lemma derivative_order1:
  assumes "length base = 12" "w < 12"
  shows "compute_derivative base w 1 = Some (derivative base w 1)"
  by (simp add: compute_derivative_eq [OF assms] upto_rec1 derivative_def masks_def
      perturbed_def xor_all_def xor.commute)

lemma derivative_order2:
  assumes "length base = 12" "w < 12"
  shows "compute_derivative base w 2 = Some (derivative base w 2)"
  by (simp add: compute_derivative_eq [OF assms] upto_rec1 derivative_def masks_def
      perturbed_def xor_all_def Let_def upt_rec xor.commute xor.left_commute xor.assoc)

lemma derivative_order3:
  assumes "length base = 12" "w < 12"
  shows "compute_derivative base w 3 = Some (derivative base w 3)"
  by (simp add: compute_derivative_eq [OF assms] upto_rec1 derivative_def masks_def
      perturbed_def xor_all_def Let_def upt_rec xor.commute xor.left_commute xor.assoc)

lemma derivative_order4:
  assumes "length base = 12" "w < 12"
  shows "compute_derivative base w 4 = Some (derivative base w 4)"
  by (simp add: compute_derivative_eq [OF assms] upto_rec1 derivative_def masks_def
      perturbed_def xor_all_def Let_def upt_rec xor.commute xor.left_commute xor.assoc)

text \<open>
  Claim C4. For a base state of twelve words, a word index below 12 and an order from 1
  to 4, \<open>compute_derivative\<close> returns the XOR, over all sublists \<open>S\<close> of the masks
  \<open>1 << 0, \<dots>, 1 << (order - 1)\<close>, of word \<open>word_index\<close> of \<open>gimli_permutation\<close> applied to the
  base state with the masks of \<open>S\<close> XORed into word \<open>word_index\<close>. For order 1 this is word
  \<open>word_index\<close> of the permutation of the base state XOR that of the base state with bit 0
  of word \<open>word_index\<close> flipped.
\<close>

theorem compute_derivative_spec:
  assumes "length base = 12" and "word_index < 12" and "1 \<le> order" and "order \<le> 4"
  shows "compute_derivative base word_index order =
      Some (xor_all (map (\<lambda>S. gimli_permutation
                (base[word_index := base ! word_index XOR xor_all S]) ! word_index)
              (subseqs (map (\<lambda>i. push_bit i 1) [0..<nat order])))) \<and>
    compute_derivative base word_index 1 =
      Some (gimli_permutation base ! word_index XOR
            gimli_permutation (base[word_index := base ! word_index XOR 1]) ! word_index)"
proof
  from assms(3,4) have "order = 1 \<or> order = 2 \<or> order = 3 \<or> order = 4" by arith
  then have "compute_derivative base word_index order =
      Some (derivative base word_index (nat order))"
    using derivative_order1 [OF assms(1,2)] derivative_order2 [OF assms(1,2)]
      derivative_order3 [OF assms(1,2)] derivative_order4 [OF assms(1,2)]
    by auto
  then show "compute_derivative base word_index order =
      Some (xor_all (map (\<lambda>S. gimli_permutation
                (base[word_index := base ! word_index XOR xor_all S]) ! word_index)
              (subseqs (map (\<lambda>i. push_bit i 1) [0..<nat order]))))"
    by (simp only: derivative_def perturbed_def masks_def)
  show "compute_derivative base word_index 1 =
      Some (gimli_permutation base ! word_index XOR
            gimli_permutation (base[word_index := base ! word_index XOR 1]) ! word_index)"
    by (simp add: compute_derivative_eq [OF assms(1,2)] upto_rec1)
qed

theorem compute_derivative_spec_witness:
  "length [1, 0, 0, 0, 0, 0, 0, 0, 0, 0, 0, 0 :: u32] = 12 \<and> (0::nat) < 12 \<and>
   (1::int) \<le> 2 \<and> (2::int) \<le> 4 \<and>
   compute_derivative [1, 0, 0, 0, 0, 0, 0, 0, 0, 0, 0, 0] 0 2 = Some 16 \<and>
   compute_derivative [1, 0, 0, 0, 0, 0, 0, 0, 0, 0, 0, 0] 0 1 = Some 68753412"
proof -
  have l: "length [1, 0, 0, 0, 0, 0, 0, 0, 0, 0, 0, 0 :: u32] = 12" by simp
  have 2: "xor_all (map (\<lambda>S. gimli_permutation
                ([1, 0, 0, 0, 0, 0, 0, 0, 0, 0, 0, 0]
                   [0 := [1, 0, 0, 0, 0, 0, 0, 0, 0, 0, 0, 0] ! 0 XOR xor_all S]) ! 0)
              (subseqs (map (\<lambda>i. push_bit i 1) [0..<nat 2]))) = 16"
    by code_simp
  have 1: "gimli_permutation [1, 0, 0, 0, 0, 0, 0, 0, 0, 0, 0, 0] ! 0 XOR
        gimli_permutation ([1, 0, 0, 0, 0, 0, 0, 0, 0, 0, 0, 0]
           [0 := [1, 0, 0, 0, 0, 0, 0, 0, 0, 0, 0, 0] ! 0 XOR 1]) ! 0 = 68753412"
    by code_simp
  from compute_derivative_spec [of "[1, 0, 0, 0, 0, 0, 0, 0, 0, 0, 0, 0]" 0 2] l 1 2
  show ?thesis by simp
qed

end
